theory Spec2Isabelle
  imports Main "HOL-Library.Word"
begin

section \<open>Data model of http\_control.go\<close>

text \<open>
  \<^verbatim>\<open>PlayerStatus\<close> (lines 15-24). \<^verbatim>\<open>uint8\<close> is an 8-bit word and
  \<^verbatim>\<open>time.Duration\<close> (an \<^verbatim>\<open>int64\<close>) a 64-bit word; Go strings are byte strings.
\<close>

record PlayerStatus =
  SongTitle :: string
  Artist :: string
  IsPlaying :: bool
  PlayMode :: "8 word"
  SongDuration :: "64 word"
  PlaybackPlayed :: "64 word"
  Lyric :: string
  IsLoggedIn :: bool

text \<open>
  Modelled from the spec: \<^verbatim>\<open>types.Mode\<close> and its constants are declared in the player's
  \<^verbatim>\<open>internal/types\<close> package, which is not part of this file. The spec calls it an
  enumeration with five valid values; only the five constants that \<^verbatim>\<open>commandHandler\<close>
  names are needed.
\<close>

datatype Mode = PmOrdered | PmListLoop | PmSingleLoop | PmListRandom | PmInfRandom

text \<open>
  \<^verbatim>\<open>PlayerController\<close> (lines 27-37) is an interface implemented elsewhere. An
  implementation is a table of methods over its own state \<open>'p\<close>; a Go \<^verbatim>\<open>error\<close> result is
  \<open>None\<close> for \<^verbatim>\<open>nil\<close> and \<open>Some txt\<close> for an error whose \<^verbatim>\<open>Error()\<close> text is \<open>txt\<close>.
\<close>

record 'p PlayerController =
  SetPlayMode :: "Mode \<Rightarrow> 'p \<Rightarrow> string option \<times> 'p"
  Play :: "'p \<Rightarrow> 'p"
  Pause :: "'p \<Rightarrow> 'p"
  Next :: "'p \<Rightarrow> 'p"
  Previous :: "'p \<Rightarrow> 'p"
  NextPlayMode :: "'p \<Rightarrow> 'p"
  ActivateIntelligentMode :: "'p \<Rightarrow> string option \<times> 'p"
  GetStatus :: "'p \<Rightarrow> PlayerStatus \<times> 'p"
  Rerender :: "'p \<Rightarrow> 'p"

text \<open>The invocations of the interface, in the order in which a handler makes them.\<close>

datatype call =
    CSetPlayMode Mode | CPlay | CPause | CNext | CPrevious | CNextPlayMode
  | CActivateIntelligentMode | CGetStatus | CRerender

text \<open>\<^verbatim>\<open>command\<close> (lines 147-150).\<close>

record command =
  Command :: string
  Args :: "string list"

subsection \<open>The parts of net/http that the handlers use\<close>

text \<open>
  An \<^verbatim>\<open>http.ResponseWriter\<close>: the header map, the status line (\<open>None\<close> until it is
  written), the byte strings passed to \<^verbatim>\<open>Write\<close> in order, how many of them a
  \<^verbatim>\<open>Flush\<close> has pushed to the wire, and whether the value implements
  \<^verbatim>\<open>http.Flusher\<close>.
\<close>

record ResponseWriter =
  header :: "string \<rightharpoonup> string"
  code :: "nat option"
  written :: "string list"
  flushed :: nat
  flusher :: bool

text \<open>\<^verbatim>\<open>r.Body\<close>, an \<^verbatim>\<open>io.ReadCloser\<close>, and the request.\<close>

record ReadCloser =
  bytes :: string
  closed :: bool

record Request =
  Method :: string
  Body :: ReadCloser
  ctx_done :: bool

definition MethodGet :: string where
  "MethodGet = ''GET''"

definition MethodPost :: string where
  "MethodPost = ''POST''"

definition StatusOK :: nat where
  "StatusOK = 200"

definition StatusBadRequest :: nat where
  "StatusBadRequest = 400"

definition StatusMethodNotAllowed :: nat where
  "StatusMethodNotAllowed = 405"

definition StatusInternalServerError :: nat where
  "StatusInternalServerError = 500"

text \<open>\<^verbatim>\<open>w.Header().Set\<close> and \<^verbatim>\<open>w.Header().Del\<close>.\<close>

definition Header_Set :: "string \<Rightarrow> string \<Rightarrow> ResponseWriter \<Rightarrow> ResponseWriter" where
  "Header_Set k v rw = rw\<lparr>header := (header rw)(k \<mapsto> v)\<rparr>"

definition Header_Del :: "string \<Rightarrow> ResponseWriter \<Rightarrow> ResponseWriter" where
  "Header_Del k rw = rw\<lparr>header := (header rw)(k := None)\<rparr>"

text \<open>\<^verbatim>\<open>w.WriteHeader\<close>: only the first call sets the status line.\<close>

definition WriteHeader :: "nat \<Rightarrow> ResponseWriter \<Rightarrow> ResponseWriter" where
  "WriteHeader c rw = (if code rw = None then rw\<lparr>code := Some c\<rparr> else rw)"

text \<open>\<^verbatim>\<open>w.Write\<close>: a write before any \<^verbatim>\<open>WriteHeader\<close> sends status 200 first.\<close>

definition Write :: "string \<Rightarrow> ResponseWriter \<Rightarrow> ResponseWriter" where
  "Write b rw = (let rw' = WriteHeader StatusOK rw in rw'\<lparr>written := written rw' @ [b]\<rparr>)"

text \<open>\<^verbatim>\<open>flusher.Flush()\<close>: everything written so far goes to the client.\<close>

definition Flush :: "ResponseWriter \<Rightarrow> ResponseWriter" where
  "Flush rw = rw\<lparr>flushed := length (written rw)\<rparr>"

text \<open>
  \<^verbatim>\<open>http.Error(w, msg, code)\<close> of the standard library: it drops the Content-Length
  header, sets a plain-text content type, writes the status line and then the message
  followed by a newline. (Recent releases drop a few more headers; nothing below depends on
  the header map.)
\<close>

definition http_Error :: "string \<Rightarrow> nat \<Rightarrow> ResponseWriter \<Rightarrow> ResponseWriter" where
  "http_Error msg c rw =
     Write (msg @ ''\<newline>'')
       (WriteHeader c
         (Header_Set ''X-Content-Type-Options'' ''nosniff''
           (Header_Set ''Content-Type'' ''text/plain; charset=utf-8''
             (Header_Del ''Content-Length'' rw))))"

text \<open>\<^verbatim>\<open>r.Body.Close()\<close>.\<close>

definition Body_Close :: "Request \<Rightarrow> Request" where
  "Body_Close rq = rq\<lparr>Body := (Body rq)\<lparr>closed := True\<rparr>\<rparr>"

text \<open>
  The two response bodies of the command endpoint:
  \<^verbatim>\<open>fmt.Sprintf(`{"status": "error", "message": "%s"}`, msg)\<close>, which splices the
  message between the two halves of the template unchanged, and the literal
  \<^verbatim>\<open>{"status": "ok"}\<close>.
\<close>

definition error_body :: "string \<Rightarrow> string" where
  "error_body msg = ''{\"status\": \"error\", \"message\": \"'' @ msg @ ''\"}''"

definition ok_body :: string where
  "ok_body = ''{\"status\": \"ok\"}''"

section \<open>The request/response handlers\<close>

text \<open>
  One execution of a handler: the response writer and the request it was given, the state
  of the player behind the capability interface, and the calls made on that interface.
\<close>

record 'p conn =
  resp :: ResponseWriter
  req :: Request
  player :: 'p
  calls :: "call list"

definition respond :: "nat \<Rightarrow> string \<Rightarrow> 'p conn \<Rightarrow> 'p conn" where
  "respond c b e = e\<lparr>resp := Write b (WriteHeader c (resp e))\<rparr>"

definition call_SetPlayMode ::
  "'p PlayerController \<Rightarrow> Mode \<Rightarrow> 'p conn \<Rightarrow> string option \<times> 'p conn" where
  "call_SetPlayMode pcl m e =
     (case SetPlayMode pcl m (player e) of
        (err, p') \<Rightarrow> (err, e\<lparr>player := p', calls := calls e @ [CSetPlayMode m]\<rparr>))"

definition call_ActivateIntelligentMode ::
  "'p PlayerController \<Rightarrow> 'p conn \<Rightarrow> string option \<times> 'p conn" where
  "call_ActivateIntelligentMode pcl e =
     (case ActivateIntelligentMode pcl (player e) of
        (err, p') \<Rightarrow> (err, e\<lparr>player := p', calls := calls e @ [CActivateIntelligentMode]\<rparr>))"

definition call_GetStatus ::
  "'p PlayerController \<Rightarrow> 'p conn \<Rightarrow> PlayerStatus \<times> 'p conn" where
  "call_GetStatus pcl e =
     (case GetStatus pcl (player e) of
        (st, p') \<Rightarrow> (st, e\<lparr>player := p', calls := calls e @ [CGetStatus]\<rparr>))"

definition call_unit :: "('p \<Rightarrow> 'p) \<Rightarrow> call \<Rightarrow> 'p conn \<Rightarrow> 'p conn" where
  "call_unit f c e = e\<lparr>player := f (player e), calls := calls e @ [c]\<rparr>"

text \<open>The inner \<^verbatim>\<open>switch cmd.Args[0]\<close> (lines 174-189); \<open>None\<close> is its default branch.\<close>

definition mode_of_arg :: "string \<Rightarrow> Mode option" where
  "mode_of_arg a =
     (if a = ''ordered'' then Some PmOrdered
      else if a = ''list_loop'' then Some PmListLoop
      else if a = ''single_loop'' then Some PmSingleLoop
      else if a = ''list_random'' then Some PmListRandom
      else if a = ''inf_random'' then Some PmInfRandom
      else None)"

text \<open>The \<^verbatim>\<open>switch cmd.Command\<close> of \<^verbatim>\<open>commandHandler\<close> (lines 166-230).\<close>

definition dispatch :: "'p PlayerController \<Rightarrow> command \<Rightarrow> 'p conn \<Rightarrow> 'p conn" where
  "dispatch pcl cmd e =
     (if Command cmd = ''set_play_mode'' then
        (if length (Args cmd) \<noteq> 1 then
           respond StatusBadRequest (error_body ''invalid args'') e
         else
           (case mode_of_arg (Args cmd ! 0) of
              None \<Rightarrow> respond StatusBadRequest (error_body ''invalid play mode'') e
            | Some mode \<Rightarrow>
                (case call_SetPlayMode pcl mode e of
                   (Some err, e1) \<Rightarrow> respond StatusInternalServerError (error_body err) e1
                 | (None, e1) \<Rightarrow>
                     respond StatusOK ok_body (call_unit (Rerender pcl) CRerender e1))))
      else if Command cmd = ''play'' then
        respond StatusOK ok_body (call_unit (Play pcl) CPlay e)
      else if Command cmd = ''pause'' then
        respond StatusOK ok_body (call_unit (Pause pcl) CPause e)
      else if Command cmd = ''next'' then
        respond StatusOK ok_body (call_unit (Next pcl) CNext e)
      else if Command cmd = ''previous'' then
        respond StatusOK ok_body (call_unit (Previous pcl) CPrevious e)
      else if Command cmd = ''next_play_mode'' then
        respond StatusOK ok_body (call_unit (NextPlayMode pcl) CNextPlayMode e)
      else if Command cmd = ''activate_intelligent_mode'' then
        (case call_ActivateIntelligentMode pcl e of
           (Some err, e1) \<Rightarrow> respond StatusInternalServerError (error_body err) e1
         | (None, e1) \<Rightarrow> respond StatusOK ok_body e1)
      else
        respond StatusBadRequest (error_body ''unknown command'') e)"

text \<open>
  \<^verbatim>\<open>commandHandler\<close> (lines 152-231). \<open>decode\<close> stands for
  \<^verbatim>\<open>json.NewDecoder(r.Body).Decode(&cmd)\<close> of the standard library: from the bytes of the
  body it yields the decoded command, or the text of the decoding error. The
  \<^verbatim>\<open>defer r.Body.Close()\<close> of line 164 is registered only once decoding has succeeded,
  so it runs on the paths through the switch and on no other.
\<close>

definition commandHandler ::
  "'p PlayerController \<Rightarrow> (string \<Rightarrow> string + command) \<Rightarrow> 'p conn \<Rightarrow> 'p conn" where
  "commandHandler pcl decode e =
     (if Method (req e) \<noteq> MethodPost then
        e\<lparr>resp := WriteHeader StatusMethodNotAllowed (resp e)\<rparr>
      else
        (case decode (bytes (Body (req e))) of
           Inl err \<Rightarrow> respond StatusBadRequest (error_body err) e
         | Inr cmd \<Rightarrow>
             (let e' = dispatch pcl cmd e in e'\<lparr>req := Body_Close (req e')\<rparr>)))"


text \<open>
  \<^verbatim>\<open>statusHandler\<close> (lines 128-145). \<open>marshal\<close> stands for \<^verbatim>\<open>json.Marshal\<close> on a
  \<^verbatim>\<open>PlayerStatus\<close>: the encoded bytes, or the text of the encoding error.
\<close>

definition statusHandler ::
  "'p PlayerController \<Rightarrow> (PlayerStatus \<Rightarrow> string + string) \<Rightarrow> 'p conn \<Rightarrow> 'p conn" where
  "statusHandler pcl marshal e =
     (if Method (req e) \<noteq> MethodGet then
        e\<lparr>resp := WriteHeader StatusMethodNotAllowed (resp e)\<rparr>
      else
        (case call_GetStatus pcl e of
           (status, e1) \<Rightarrow>
             (case marshal status of
                Inl err \<Rightarrow> respond StatusInternalServerError (error_body err) e1
              | Inr js \<Rightarrow>
                  e1\<lparr>resp := Write js (WriteHeader StatusOK
                                (Header_Set ''Content-Type'' ''application/json'' (resp e1)))\<rparr>)))"

text \<open>A fresh response writer and a request, as the server hands them to a handler.\<close>

definition new_writer :: "bool \<Rightarrow> ResponseWriter" where
  "new_writer fl = \<lparr>header = Map.empty, code = None, written = [], flushed = 0, flusher = fl\<rparr>"

definition new_request :: "string \<Rightarrow> string \<Rightarrow> Request" where
  "new_request m b = \<lparr>Method = m, Body = \<lparr>bytes = b, closed = False\<rparr>, ctx_done = False\<rparr>"

definition new_conn :: "bool \<Rightarrow> Request \<Rightarrow> 'p \<Rightarrow> 'p conn" where
  "new_conn fl rq p = \<lparr>resp = new_writer fl, req = rq, player = p, calls = []\<rparr>"

section \<open>Subscriber channels and the registry\<close>

text \<open>
  A \<^verbatim>\<open>chan string\<close>: the queued messages, the capacity given to \<^verbatim>\<open>make\<close>, and whether
  \<^verbatim>\<open>close\<close> has been called. A channel value is a handle; the channel objects live in a
  store indexed by handle, and \<open>nextc\<close> is the first handle \<^verbatim>\<open>make\<close> has not handed out.
\<close>

type_synonym chan = nat

record chan_state =
  buf :: "string list"
  cap :: nat
  is_closed :: bool

text \<open>
  What can go wrong when a goroutine is asked to take a step: it has to wait
  (\<open>WouldBlock\<close>), the step asked for is not the one it is at (\<open>NoSuchStep\<close>), or the Go
  runtime panics.
\<close>

datatype fault =
    WouldBlock | NoSuchStep
  | SendOnClosedChannel | CloseOfClosedChannel | UnlockOfUnlockedMutex

text \<open>\<^verbatim>\<open>make(chan string, n)\<close>.\<close>

definition make_chan :: "nat \<Rightarrow> chan_state" where
  "make_chan n = \<lparr>buf = [], cap = n, is_closed = False\<rparr>"

text \<open>
  \<^verbatim>\<open>select { case ch <- v: default: }\<close> (lines 79-83): a send on a closed channel
  panics; otherwise the message is queued when the buffer has room, and the default branch
  leaves the channel as it is when the buffer is full.
\<close>

definition try_send :: "string \<Rightarrow> chan_state \<Rightarrow> fault + chan_state" where
  "try_send v ch =
     (if is_closed ch then Inl SendOnClosedChannel
      else if length (buf ch) < cap ch then Inr (ch\<lparr>buf := buf ch @ [v]\<rparr>)
      else Inr ch)"

text \<open>
  \<^verbatim>\<open>data := <-ch\<close> as a case of a select: ready when a message is queued, or when the
  channel is closed and drained (it then yields the empty string).
\<close>

definition try_recv :: "chan_state \<Rightarrow> (string \<times> chan_state) option" where
  "try_recv ch =
     (case buf ch of
        v # vs \<Rightarrow> Some (v, ch\<lparr>buf := vs\<rparr>)
      | [] \<Rightarrow> if is_closed ch then Some ([], ch) else None)"

text \<open>\<^verbatim>\<open>close(ch)\<close>: closing a closed channel panics.\<close>

definition close_chan :: "chan_state \<Rightarrow> fault + chan_state" where
  "close_chan ch = (if is_closed ch then Inl CloseOfClosedChannel else Inr (ch\<lparr>is_closed := True\<rparr>))"

subsection \<open>The controller and its goroutines\<close>

text \<open>
  Where a goroutine running \<^verbatim>\<open>sseHandler\<close> (lines 87-126) stands: each value names the
  statement it executes next. The \<open>Defer\<close> values are the deferred function of lines 98-103.
\<close>

datatype sse_pc =
    SseEntry | SseLock | SseInsert | SseUnlock | SseCheck | SseInit | SseSelect
  | DeferLock | DeferDelete | DeferUnlock | DeferClose | SseReturned

record sse_local =
  pc :: sse_pc
  sw :: ResponseWriter
  sr :: Request
  clientChan :: chan
  initialStatus :: "PlayerStatus option"
  initialData :: string

text \<open>The same for a goroutine running \<^verbatim>\<open>BroadcastStatus\<close> (lines 68-85).\<close>

datatype bc_pc = BcLock | BcMarshal | BcRange | BcUnlock | BcReturned

record bc_local =
  bpc :: bc_pc
  status :: PlayerStatus
  jsonData :: string
  todo :: "chan set"

datatype goroutine = SseHandler sse_local | Broadcast bc_local

type_synonym tid = nat

text \<open>
  \<^verbatim>\<open>HTTPController\<close> (lines 40-44) with what it shares with its goroutines: the state of
  the player behind \<^verbatim>\<open>playerController\<close>, the set \<^verbatim>\<open>sseClients\<close>, the mutex \<^verbatim>\<open>mu\<close>
  (\<open>True\<close> when locked), the channel store, the log and the goroutines themselves.
\<close>

record 'p server =
  playerState :: 'p
  sseClients :: "chan set"
  mu :: bool
  chans :: "chan \<Rightarrow> chan_state"
  nextc :: chan
  slog :: "(string \<times> string) list"
  procs :: "tid \<Rightarrow> goroutine option"

text \<open>\<^verbatim>\<open>NewHTTPController\<close> (lines 47-52): an empty registry, an unlocked mutex.\<close>

definition NewHTTPController :: "'p \<Rightarrow> 'p server" where
  "NewHTTPController p =
     \<lparr>playerState = p, sseClients = {}, mu = False, chans = (\<lambda>c. make_chan 0), nextc = 0,
      slog = [], procs = (\<lambda>t. None)\<rparr>"

section \<open>BroadcastStatus as one uninterrupted call\<close>

text \<open>
  The \<^verbatim>\<open>for clientChan := range c.sseClients\<close> loop (lines 78-84). Go visits the keys of
  a map in an unspecified order; \<open>order\<close> is the order of this visit.
\<close>

fun range_send :: "string \<Rightarrow> chan list \<Rightarrow> (chan \<Rightarrow> chan_state) \<Rightarrow> fault + (chan \<Rightarrow> chan_state)" where
  "range_send v [] h = Inr h"
| "range_send v (c # cs) h =
     (case try_send v (h c) of
        Inl f \<Rightarrow> Inl f
      | Inr ch \<Rightarrow> range_send v cs (h(c := ch)))"

text \<open>
  \<^verbatim>\<open>BroadcastStatus\<close> (lines 68-85) run from \<^verbatim>\<open>Lock\<close> to the deferred \<^verbatim>\<open>Unlock\<close>
  with no other goroutine taking a step in between. The call waits while the mutex is held.
\<close>

definition BroadcastStatus ::
  "(PlayerStatus \<Rightarrow> string + string) \<Rightarrow> chan list \<Rightarrow> PlayerStatus \<Rightarrow> 'p server
   \<Rightarrow> fault + 'p server" where
  "BroadcastStatus marshal order st s =
     (if mu s then Inl WouldBlock
      else
        (let s1 = s\<lparr>mu := True\<rparr> in
         case marshal st of
           Inl err \<Rightarrow>
             Inr (s1\<lparr>slog := slog s1 @ [(''Failed to marshal status for SSE broadcast'', err)],
                     mu := False\<rparr>)
         | Inr js \<Rightarrow>
             (case range_send js order (chans s1) of
                Inl f \<Rightarrow> Inl f
              | Inr h \<Rightarrow> Inr (s1\<lparr>chans := h, mu := False\<rparr>))))"

section \<open>The events endpoint and the publisher, statement by statement\<close>

text \<open>The four \<^verbatim>\<open>w.Header().Set\<close> calls of lines 88-91.\<close>

definition sse_headers :: "ResponseWriter \<Rightarrow> ResponseWriter" where
  "sse_headers rw =
     Header_Set ''Access-Control-Allow-Origin'' ''*''
       (Header_Set ''Connection'' ''keep-alive''
         (Header_Set ''Cache-Control'' ''no-cache''
           (Header_Set ''Content-Type'' ''text/event-stream'' rw)))"

text \<open>\<^verbatim>\<open>fmt.Fprintf(w, "data: %s\n\n", data)\<close> followed by \<^verbatim>\<open>flusher.Flush()\<close>.\<close>

definition sse_frame :: "string \<Rightarrow> string" where
  "sse_frame d = ''data: '' @ d @ ''\<newline>\<newline>''"

definition push_frame :: "string \<Rightarrow> ResponseWriter \<Rightarrow> ResponseWriter" where
  "push_frame d rw = Flush (Write (sse_frame d) rw)"

definition set_proc :: "tid \<Rightarrow> goroutine \<Rightarrow> 'p server \<Rightarrow> 'p server" where
  "set_proc t g s = s\<lparr>procs := (procs s)(t \<mapsto> g)\<rparr>"

text \<open>\<^verbatim>\<open>c.mu.Lock()\<close> and \<^verbatim>\<open>c.mu.Unlock()\<close>.\<close>

definition Lock :: "'p server \<Rightarrow> fault + 'p server" where
  "Lock s = (if mu s then Inl WouldBlock else Inr (s\<lparr>mu := True\<rparr>))"

definition Unlock :: "'p server \<Rightarrow> fault + 'p server" where
  "Unlock s = (if mu s then Inr (s\<lparr>mu := False\<rparr>) else Inl UnlockOfUnlockedMutex)"

definition then_at :: "fault + 'p server \<Rightarrow> tid \<Rightarrow> goroutine \<Rightarrow> fault + 'p server" where
  "then_at x t g = (case x of Inl f \<Rightarrow> Inl f | Inr s \<Rightarrow> Inr (set_proc t g s))"

text \<open>
  The next statement of a goroutine in \<^verbatim>\<open>sseHandler\<close>, where no choice is involved:
  lines 88-93 (headers and \<^verbatim>\<open>make\<close>), 94, 95, 96, 105-109 (the flusher test, with the
  early return into the deferred function), 112-115 (the initial push; on an encoding error
  \<^verbatim>\<open>initialData\<close> is nil and prints as nothing), and the deferred lines 99, 100, 101, 102.
  The locals \<^verbatim>\<open>clientChan\<close>, \<^verbatim>\<open>initialStatus\<close> and \<^verbatim>\<open>initialData\<close> hold a
  placeholder until the statement that declares them has run.
\<close>

definition sse_step ::
  "'p PlayerController \<Rightarrow> (PlayerStatus \<Rightarrow> string + string) \<Rightarrow> tid \<Rightarrow> sse_local \<Rightarrow> 'p server
   \<Rightarrow> fault + 'p server" where
  "sse_step pcl marshal t l s =
     (case pc l of
        SseEntry \<Rightarrow>
          Inr (set_proc t
                 (SseHandler (l\<lparr>pc := SseLock, sw := sse_headers (sw l), clientChan := nextc s\<rparr>))
                 (s\<lparr>chans := (chans s)(nextc s := make_chan 1), nextc := Suc (nextc s)\<rparr>))
      | SseLock \<Rightarrow> then_at (Lock s) t (SseHandler (l\<lparr>pc := SseInsert\<rparr>))
      | SseInsert \<Rightarrow>
          Inr (set_proc t (SseHandler (l\<lparr>pc := SseUnlock\<rparr>))
                 (s\<lparr>sseClients := insert (clientChan l) (sseClients s)\<rparr>))
      | SseUnlock \<Rightarrow> then_at (Unlock s) t (SseHandler (l\<lparr>pc := SseCheck\<rparr>))
      | SseCheck \<Rightarrow>
          (if flusher (sw l) then Inr (set_proc t (SseHandler (l\<lparr>pc := SseInit\<rparr>)) s)
           else Inr (set_proc t
                  (SseHandler (l\<lparr>pc := DeferLock,
                     sw := http_Error ''Streaming unsupported!'' StatusInternalServerError (sw l)\<rparr>))
                  s))
      | SseInit \<Rightarrow>
          (case GetStatus pcl (playerState s) of
             (st, p') \<Rightarrow>
               (let d = (case marshal st of Inl err \<Rightarrow> [] | Inr js \<Rightarrow> js)
                in Inr (set_proc t
                     (SseHandler (l\<lparr>pc := SseSelect, initialStatus := Some st,
                        initialData := d, sw := push_frame d (sw l)\<rparr>))
                     (s\<lparr>playerState := p'\<rparr>))))
      | SseSelect \<Rightarrow> Inl NoSuchStep
      | DeferLock \<Rightarrow> then_at (Lock s) t (SseHandler (l\<lparr>pc := DeferDelete\<rparr>))
      | DeferDelete \<Rightarrow>
          Inr (set_proc t (SseHandler (l\<lparr>pc := DeferUnlock\<rparr>))
                 (s\<lparr>sseClients := sseClients s - {clientChan l}\<rparr>))
      | DeferUnlock \<Rightarrow> then_at (Unlock s) t (SseHandler (l\<lparr>pc := DeferClose\<rparr>))
      | DeferClose \<Rightarrow>
          (case close_chan (chans s (clientChan l)) of
             Inl f \<Rightarrow> Inl f
           | Inr ch \<Rightarrow>
               Inr (set_proc t (SseHandler (l\<lparr>pc := SseReturned\<rparr>))
                      (s\<lparr>chans := (chans s)(clientChan l := ch)\<rparr>)))
      | SseReturned \<Rightarrow> Inl NoSuchStep)"

text \<open>
  The two cases of the select of lines 118-124. A goroutine at the select waits until one
  of them is ready; when both are, Go takes either.
\<close>

definition sse_recv :: "tid \<Rightarrow> sse_local \<Rightarrow> 'p server \<Rightarrow> fault + 'p server" where
  "sse_recv t l s =
     (if pc l \<noteq> SseSelect then Inl NoSuchStep
      else
        (case try_recv (chans s (clientChan l)) of
           None \<Rightarrow> Inl WouldBlock
         | Some (d, ch) \<Rightarrow>
             Inr (set_proc t (SseHandler (l\<lparr>sw := push_frame d (sw l)\<rparr>))
                    (s\<lparr>chans := (chans s)(clientChan l := ch)\<rparr>))))"

definition sse_done :: "tid \<Rightarrow> sse_local \<Rightarrow> 'p server \<Rightarrow> fault + 'p server" where
  "sse_done t l s =
     (if pc l \<noteq> SseSelect then Inl NoSuchStep
      else if ctx_done (sr l) then Inr (set_proc t (SseHandler (l\<lparr>pc := DeferLock\<rparr>)) s)
      else Inl WouldBlock)"

text \<open>
  The next statement of a goroutine in \<^verbatim>\<open>BroadcastStatus\<close>: line 69, lines 72-76, the
  end of the range loop, and the deferred \<^verbatim>\<open>Unlock\<close> of line 70. The range loop works on
  the keys present when it starts; the mutex keeps the map unchanged while it runs.
\<close>

definition bc_step ::
  "(PlayerStatus \<Rightarrow> string + string) \<Rightarrow> tid \<Rightarrow> bc_local \<Rightarrow> 'p server \<Rightarrow> fault + 'p server" where
  "bc_step marshal t b s =
     (case bpc b of
        BcLock \<Rightarrow> then_at (Lock s) t (Broadcast (b\<lparr>bpc := BcMarshal\<rparr>))
      | BcMarshal \<Rightarrow>
          (case marshal (status b) of
             Inl err \<Rightarrow>
               Inr (set_proc t (Broadcast (b\<lparr>bpc := BcUnlock\<rparr>))
                      (s\<lparr>slog := slog s @ [(''Failed to marshal status for SSE broadcast'', err)]\<rparr>))
           | Inr js \<Rightarrow>
               Inr (set_proc t
                      (Broadcast (b\<lparr>bpc := BcRange, jsonData := js, todo := sseClients s\<rparr>)) s))
      | BcRange \<Rightarrow>
          (if todo b = {} then Inr (set_proc t (Broadcast (b\<lparr>bpc := BcUnlock\<rparr>)) s)
           else Inl NoSuchStep)
      | BcUnlock \<Rightarrow> then_at (Unlock s) t (Broadcast (b\<lparr>bpc := BcReturned\<rparr>))
      | BcReturned \<Rightarrow> Inl NoSuchStep)"

text \<open>One pass through the body of the range loop (lines 79-83), for the key \<open>c\<close>.\<close>

definition bc_range :: "tid \<Rightarrow> chan \<Rightarrow> bc_local \<Rightarrow> 'p server \<Rightarrow> fault + 'p server" where
  "bc_range t c b s =
     (if bpc b \<noteq> BcRange \<or> c \<notin> todo b then Inl NoSuchStep
      else
        (case try_send (jsonData b) (chans s c) of
           Inl f \<Rightarrow> Inl f
         | Inr ch \<Rightarrow>
             Inr (set_proc t (Broadcast (b\<lparr>todo := todo b - {c}\<rparr>))
                    (s\<lparr>chans := (chans s)(c := ch)\<rparr>))))"

text \<open>
  What can happen next in the whole system: the server starts a handler goroutine for a
  request to the events endpoint, the owning process calls \<^verbatim>\<open>BroadcastStatus\<close> in a
  goroutine, the context of a request is cancelled, the player changes state, or one of the
  goroutines executes its next statement.
\<close>

datatype 'p action =
    Serve_events tid bool Request
  | Call_broadcast tid PlayerStatus
  | Cancel tid
  | Player_changes 'p
  | Step tid
  | Select_recv tid
  | Select_done tid
  | Range_next tid chan

fun step ::
  "'p PlayerController \<Rightarrow> (PlayerStatus \<Rightarrow> string + string) \<Rightarrow> 'p action \<Rightarrow> 'p server
   \<Rightarrow> fault + 'p server" where
  "step pcl marshal (Serve_events t fl rq) s =
     (case procs s t of
        Some g \<Rightarrow> Inl NoSuchStep
      | None \<Rightarrow>
          Inr (set_proc t
                 (SseHandler \<lparr>pc = SseEntry, sw = new_writer fl, sr = rq, clientChan = 0,
                    initialStatus = None, initialData = []\<rparr>) s))"
| "step pcl marshal (Call_broadcast t st) s =
     (case procs s t of
        Some g \<Rightarrow> Inl NoSuchStep
      | None \<Rightarrow>
          Inr (set_proc t (Broadcast \<lparr>bpc = BcLock, status = st, jsonData = [], todo = {}\<rparr>) s))"
| "step pcl marshal (Cancel t) s =
     (case procs s t of
        Some (SseHandler l) \<Rightarrow>
          Inr (set_proc t (SseHandler (l\<lparr>sr := (sr l)\<lparr>ctx_done := True\<rparr>\<rparr>)) s)
      | _ \<Rightarrow> Inl NoSuchStep)"
| "step pcl marshal (Player_changes p) s = Inr (s\<lparr>playerState := p\<rparr>)"
| "step pcl marshal (Step t) s =
     (case procs s t of
        Some (SseHandler l) \<Rightarrow> sse_step pcl marshal t l s
      | Some (Broadcast b) \<Rightarrow> bc_step marshal t b s
      | None \<Rightarrow> Inl NoSuchStep)"
| "step pcl marshal (Select_recv t) s =
     (case procs s t of
        Some (SseHandler l) \<Rightarrow> sse_recv t l s
      | _ \<Rightarrow> Inl NoSuchStep)"
| "step pcl marshal (Select_done t) s =
     (case procs s t of
        Some (SseHandler l) \<Rightarrow> sse_done t l s
      | _ \<Rightarrow> Inl NoSuchStep)"
| "step pcl marshal (Range_next t c) s =
     (case procs s t of
        Some (Broadcast b) \<Rightarrow> bc_range t c b s
      | _ \<Rightarrow> Inl NoSuchStep)"

text \<open>A schedule is a list of actions; it stops at the first one that cannot be taken.\<close>

fun run ::
  "'p PlayerController \<Rightarrow> (PlayerStatus \<Rightarrow> string + string) \<Rightarrow> 'p action list \<Rightarrow> 'p server
   \<Rightarrow> fault + 'p server" where
  "run pcl marshal [] s = Inr s"
| "run pcl marshal (a # as) s =
     (case step pcl marshal a s of
        Inl f \<Rightarrow> Inl f
      | Inr s' \<Rightarrow> run pcl marshal as s')"

section \<open>What holds in every reachable state\<close>

text \<open>
  Where a handler's channel is in the registry: from after line 95 until line 100 has run.
\<close>

fun registered_at :: "sse_pc \<Rightarrow> bool" where
  "registered_at SseUnlock = True"
| "registered_at SseCheck = True"
| "registered_at SseInit = True"
| "registered_at SseSelect = True"
| "registered_at DeferLock = True"
| "registered_at DeferDelete = True"
| "registered_at p = False"

text \<open>Where a goroutine holds the mutex: between a \<^verbatim>\<open>Lock\<close> and the next \<^verbatim>\<open>Unlock\<close>.\<close>

fun sse_holds :: "sse_pc \<Rightarrow> bool" where
  "sse_holds SseInsert = True"
| "sse_holds SseUnlock = True"
| "sse_holds DeferDelete = True"
| "sse_holds DeferUnlock = True"
| "sse_holds p = False"

fun bc_holds :: "bc_pc \<Rightarrow> bool" where
  "bc_holds BcMarshal = True"
| "bc_holds BcRange = True"
| "bc_holds BcUnlock = True"
| "bc_holds p = False"

fun holds_mu :: "goroutine \<Rightarrow> bool" where
  "holds_mu (SseHandler l) = sse_holds (pc l)"
| "holds_mu (Broadcast b) = bc_holds (bpc b)"

text \<open>
  What the invariant needs to know of a goroutine: the channel it has made, whether that
  channel should be registered, whether the goroutine has closed it, and the channels a
  publisher still has to visit.
\<close>

fun gchan :: "goroutine \<Rightarrow> chan option" where
  "gchan (SseHandler l) = (if pc l = SseEntry then None else Some (clientChan l))"
| "gchan (Broadcast b) = None"

fun greg :: "goroutine \<Rightarrow> bool" where
  "greg (SseHandler l) = registered_at (pc l)"
| "greg (Broadcast b) = False"

fun gret :: "goroutine \<Rightarrow> bool" where
  "gret (SseHandler l) = (pc l = SseReturned)"
| "gret (Broadcast b) = False"

fun gtodo :: "goroutine \<Rightarrow> chan set" where
  "gtodo (SseHandler l) = {}"
| "gtodo (Broadcast b) = (if bpc b = BcRange then todo b else {})"

text \<open>
  A handler's channel has been handed out by \<^verbatim>\<open>make\<close>, is closed exactly when the handler
  has returned, and is registered exactly where it should be; no two goroutines have the
  same channel; every registered channel has been handed out and is open.
\<close>

definition inv_chan :: "'p server \<Rightarrow> bool" where
  "inv_chan s =
     (\<forall>t g c. procs s t = Some g \<longrightarrow> gchan g = Some c \<longrightarrow>
        c < nextc s \<and> is_closed (chans s c) = gret g \<and> (c \<in> sseClients s) = greg g)"

definition inv_own :: "'p server \<Rightarrow> bool" where
  "inv_own s =
     (\<forall>t t' g g' c. procs s t = Some g \<longrightarrow> procs s t' = Some g' \<longrightarrow>
        gchan g = Some c \<longrightarrow> gchan g' = Some c \<longrightarrow> t = t')"

definition inv_reg :: "'p server \<Rightarrow> bool" where
  "inv_reg s = (\<forall>c \<in> sseClients s. c < nextc s \<and> \<not> is_closed (chans s c))"

definition inv_ch :: "'p server \<Rightarrow> bool" where
  "inv_ch s = (inv_chan s \<and> inv_own s \<and> inv_reg s)"

text \<open>
  Mutual exclusion: the mutex is locked exactly when some goroutine is between a
  \<^verbatim>\<open>Lock\<close> and its \<^verbatim>\<open>Unlock\<close>, and at most one goroutine is.
\<close>

definition holder :: "'p server \<Rightarrow> tid \<Rightarrow> bool" where
  "holder s t = (case procs s t of None \<Rightarrow> False | Some g \<Rightarrow> holds_mu g)"

definition inv_mu :: "'p server \<Rightarrow> bool" where
  "inv_mu s =
     ((\<forall>t. holder s t \<longrightarrow> mu s)
      \<and> (\<forall>t t'. holder s t \<longrightarrow> holder s t' \<longrightarrow> t = t')
      \<and> (mu s \<longrightarrow> (\<exists>t. holder s t)))"

text \<open>The channels a publisher still has to visit are registered.\<close>

definition inv_todo :: "'p server \<Rightarrow> bool" where
  "inv_todo s = (\<forall>t g. procs s t = Some g \<longrightarrow> gtodo g \<subseteq> sseClients s)"

definition consistent :: "'p server \<Rightarrow> bool" where
  "consistent s = (inv_ch s \<and> inv_mu s \<and> inv_todo s)"

text \<open>
  How a step of a goroutine may change the mutex: not at all, by taking it when it is free,
  or by releasing it.
\<close>

definition mu_ok :: "'p server \<Rightarrow> goroutine \<Rightarrow> 'p server \<Rightarrow> goroutine \<Rightarrow> bool" where
  "mu_ok s g s1 g' =
     ((holds_mu g' = holds_mu g \<and> mu s1 = mu s)
      \<or> (\<not> mu s \<and> holds_mu g' \<and> mu s1)
      \<or> (holds_mu g \<and> \<not> holds_mu g' \<and> \<not> mu s1))"

text \<open>
  The response of an events handler is in one of three conditions: nothing written yet; a
  stream, which is the status line 200, the initial frame made from the status queried at
  line 112, then relayed frames, all flushed; or the refusal written by \<^verbatim>\<open>http.Error\<close>.
\<close>

definition untouched :: "sse_local \<Rightarrow> bool" where
  "untouched l = (code (sw l) = None \<and> written (sw l) = [] \<and> flushed (sw l) = 0)"

definition streaming :: "(PlayerStatus \<Rightarrow> string + string) \<Rightarrow> sse_local \<Rightarrow> bool" where
  "streaming marshal l =
     (flusher (sw l) \<and> code (sw l) = Some StatusOK
      \<and> (\<exists>ds. written (sw l) = sse_frame (initialData l) # map sse_frame ds)
      \<and> flushed (sw l) = length (written (sw l))
      \<and> (\<exists>st. initialStatus l = Some st
              \<and> initialData l = (case marshal st of Inl e \<Rightarrow> [] | Inr js \<Rightarrow> js)))"

definition refused :: "sse_local \<Rightarrow> bool" where
  "refused l =
     (\<not> flusher (sw l) \<and> code (sw l) = Some StatusInternalServerError
      \<and> written (sw l) = [''Streaming unsupported!'' @ ''\<newline>''] \<and> flushed (sw l) = 0)"

fun good_w :: "(PlayerStatus \<Rightarrow> string + string) \<Rightarrow> sse_pc \<Rightarrow> sse_local \<Rightarrow> bool" where
  "good_w m SseInit l = (flusher (sw l) \<and> untouched l)"
| "good_w m SseSelect l = streaming m l"
| "good_w m DeferLock l = (streaming m l \<or> refused l)"
| "good_w m DeferDelete l = (streaming m l \<or> refused l)"
| "good_w m DeferUnlock l = (streaming m l \<or> refused l)"
| "good_w m DeferClose l = (streaming m l \<or> refused l)"
| "good_w m SseReturned l = (streaming m l \<or> refused l)"
| "good_w m p l = untouched l"

definition inv_w :: "(PlayerStatus \<Rightarrow> string + string) \<Rightarrow> 'p server \<Rightarrow> bool" where
  "inv_w m s = (\<forall>t l. procs s t = Some (SseHandler l) \<longrightarrow> good_w m (pc l) l)"

text \<open>The statements of \<^verbatim>\<open>sseHandler\<close> up to and including the initial push.\<close>

fun before_push :: "sse_pc \<Rightarrow> bool" where
  "before_push SseEntry = True"
| "before_push SseLock = True"
| "before_push SseInsert = True"
| "before_push SseUnlock = True"
| "before_push SseCheck = True"
| "before_push SseInit = True"
| "before_push p = False"


text \<open>The effect of the select of lines 79-83 on an open channel.\<close>

definition sent :: "string \<Rightarrow> chan_state \<Rightarrow> chan_state" where
  "sent v ch = (if length (buf ch) < cap ch then ch\<lparr>buf := buf ch @ [v]\<rparr> else ch)"

text \<open>
  The same schedule, the same goroutine, the same state, with the method of every request
  to the events endpoint replaced by \<open>m\<close>.
\<close>

fun with_method :: "string \<Rightarrow> 'p action \<Rightarrow> 'p action" where
  "with_method m (Serve_events t fl rq) = Serve_events t fl (rq\<lparr>Method := m\<rparr>)"
| "with_method m a = a"

definition l_method :: "string \<Rightarrow> sse_local \<Rightarrow> sse_local" where
  "l_method m l = l\<lparr>sr := (sr l)\<lparr>Method := m\<rparr>\<rparr>"

fun g_method :: "string \<Rightarrow> goroutine \<Rightarrow> goroutine" where
  "g_method m (SseHandler l) = SseHandler (l_method m l)"
| "g_method m (Broadcast b) = Broadcast b"

definition s_method :: "string \<Rightarrow> 'p server \<Rightarrow> 'p server" where
  "s_method m s = s\<lparr>procs := (\<lambda>t. map_option (g_method m) (procs s t))\<rparr>"

definition r_method :: "string \<Rightarrow> fault + 'p server \<Rightarrow> fault + 'p server" where
  "r_method m x = (case x of Inl f \<Rightarrow> Inl f | Inr s \<Rightarrow> Inr (s_method m s))"

subsection \<open>Concrete inputs for the examples\<close>

text \<open>
  A player that is always on the same song, whose two fallible operations return the given
  error (or none), and a status encoder that prints the title only.
\<close>

definition demo_status :: PlayerStatus where
  "demo_status = \<lparr>SongTitle = ''Song'', Artist = ''Band'', IsPlaying = True, PlayMode = 2,
     SongDuration = 180000000000, PlaybackPlayed = 0, Lyric = [], IsLoggedIn = False\<rparr>"

definition demo_controller :: "string option \<Rightarrow> nat PlayerController" where
  "demo_controller err =
     \<lparr>SetPlayMode = (\<lambda>m p. (err, p)), Play = (\<lambda>p. p), Pause = (\<lambda>p. p), Next = Suc,
      Previous = (\<lambda>p. p - 1), NextPlayMode = (\<lambda>p. p),
      ActivateIntelligentMode = (\<lambda>p. (err, p)),
      GetStatus = (\<lambda>p. (demo_status, p)), Rerender = (\<lambda>p. p)\<rparr>"

definition demo_marshal :: "PlayerStatus \<Rightarrow> string + string" where
  "demo_marshal st = Inr (''{\"song_title\":\"'' @ SongTitle st @ ''\"}'')"

definition demo_json :: string where
  "demo_json = ''{\"song_title\":\"Song\"}''"

text \<open>
  What \<^verbatim>\<open>encoding/json\<close> yields on the request bodies of the examples: four commands, and
  \<^verbatim>\<open>unexpected EOF\<close> on the truncated body \<^verbatim>\<open>{"command":\<close>. No other body is used.
\<close>

definition demo_decode :: "string \<Rightarrow> string + command" where
  "demo_decode b =
     (if b = ''{\"command\":\"set_play_mode\",\"args\":[\"ordered\"]}''
        then Inr \<lparr>Command = ''set_play_mode'', Args = [''ordered'']\<rparr>
      else if b = ''{\"command\":\"set_play_mode\",\"args\":[\"shuffle\"]}''
        then Inr \<lparr>Command = ''set_play_mode'', Args = [''shuffle'']\<rparr>
      else if b = ''{\"command\":\"set_play_mode\"}''
        then Inr \<lparr>Command = ''set_play_mode'', Args = []\<rparr>
      else if b = ''{\"command\":\"activate_intelligent_mode\"}''
        then Inr \<lparr>Command = ''activate_intelligent_mode'', Args = []\<rparr>
      else Inl ''unexpected EOF'')"

definition demo_mode_request :: Request where
  "demo_mode_request = new_request ''POST'' ''{\"command\":\"set_play_mode\",\"args\":[\"ordered\"]}''"

definition demo_activate_request :: Request where
  "demo_activate_request = new_request ''POST'' ''{\"command\":\"activate_intelligent_mode\"}''"



definition demo_failed_mode :: "nat conn" where
  "demo_failed_mode =
     commandHandler (demo_controller (Some ''player busy'')) demo_decode
       (new_conn True demo_mode_request 0)"






text \<open>A registry with two subscribers: channel 0 has a full buffer, channel 1 an empty one.\<close>

definition demo_registry :: "nat server" where
  "demo_registry =
     (NewHTTPController 0)
       \<lparr>sseClients := {0, 1},
        chans := (\<lambda>c. make_chan 0)
                   (0 := \<lparr>buf = [''stale''], cap = 1, is_closed = False\<rparr>, 1 := make_chan 1),
        nextc := 2\<rparr>"

text \<open>
  Three schedules. In the first a POST request to the events endpoint is served on a
  connection that can flush: the handler registers its channel, a publisher runs to the end
  before the initial push, then the handler pushes the initial frame and relays the
  published one. The second continues the first: the request is cancelled, the handler
  deregisters, a second publisher takes the mutex and starts its loop, and the handler
  closes its channel while that publisher is still running. In the third the connection
  cannot flush.
\<close>

definition demo_connect :: "nat action list" where
  "demo_connect =
     [Serve_events 1 True (new_request ''POST'' []),
      Step 1, Step 1, Step 1, Step 1, Step 1,
      Call_broadcast 2 demo_status, Step 2, Step 2, Range_next 2 0, Step 2, Step 2,
      Step 1, Select_recv 1]"




definition demo_refuse :: "nat action list" where
  "demo_refuse =
     [Serve_events 1 False (new_request ''GET'' []),
      Step 1, Step 1, Step 1, Step 1, Step 1]"

section \<open>Preservation of the invariants\<close>

lemmas consistent_defs = consistent_def inv_ch_def inv_chan_def inv_own_def inv_reg_def inv_mu_def inv_todo_def

lemma inv_init: "consistent (NewHTTPController p)"
  by (simp add: consistent_defs holder_def NewHTTPController_def)

lemma gtodo_holds: "x \<in> gtodo g \<Longrightarrow> holds_mu g"
  by (cases g) (auto split: if_splits)

lemma holder_set_proc:
  "procs s1 = procs s \<Longrightarrow> holder (set_proc t g' s1) = (\<lambda>u. if u = t then holds_mu g' else holder s u)"
  by (rule ext) (simp add: holder_def set_proc_def)

lemma mu_set_proc [simp]: "mu (set_proc t g s) = mu s"
  and nextc_set_proc [simp]: "nextc (set_proc t g s) = nextc s"
  and chans_set_proc [simp]: "chans (set_proc t g s) = chans s"
  and sseClients_set_proc [simp]: "sseClients (set_proc t g s) = sseClients s"
  and procs_set_proc [simp]: "procs (set_proc t g s) = (procs s)(t \<mapsto> g)"
  by (simp_all add: set_proc_def)

lemma mu_step:
  fixes s s1 :: "'p server"
  assumes "inv_mu s" "procs s t = Some g" "procs s1 = procs s" "mu_ok s g s1 g'"
  shows "inv_mu (set_proc t g' s1)"
proof -
  have ht: "holder s t = holds_mu g" using assms(2) by (simp add: holder_def)
  from assms(4) consider
      (same) "holds_mu g' = holds_mu g" "mu s1 = mu s"
    | (lock) "\<not> mu s" "holds_mu g'" "mu s1"
    | (unlock) "holds_mu g" "\<not> holds_mu g'" "\<not> mu s1"
    unfolding mu_ok_def by blast
  then show ?thesis
  proof cases
    case same
    have "holder (set_proc t g' s1) = holder s"
      by (rule ext) (simp add: holder_set_proc [OF assms(3)] ht same)
    with assms(1) same show ?thesis by (simp add: inv_mu_def)
  next
    case lock
    have "\<And>u. \<not> holder s u" using assms(1) lock(1) by (auto simp add: inv_mu_def)
    then have "holder (set_proc t g' s1) = (\<lambda>u. u = t)"
      by (simp add: holder_set_proc [OF assms(3)] lock)
    with lock show ?thesis by (simp add: inv_mu_def)
  next
    case unlock
    have "\<And>u. holder s u \<Longrightarrow> u = t" using assms(1) unlock(1) ht by (auto simp add: inv_mu_def)
    then have "holder (set_proc t g' s1) = (\<lambda>u. False)"
      by (auto simp add: holder_set_proc [OF assms(3)] unlock)
    with unlock show ?thesis by (simp add: inv_mu_def)
  qed
qed

lemma mu_spawn:
  assumes "inv_mu s" "procs s t = None" "\<not> holds_mu g'"
  shows "inv_mu (set_proc t g' s)"
proof -
  have ht: "\<not> holder s t" using assms(2) by (simp add: holder_def)
  have "holder (set_proc t g' s) = holder s"
    by (rule ext) (simp add: holder_set_proc [OF refl] ht assms(3))
  with assms(1) show ?thesis by (simp add: inv_mu_def)
qed

lemma todo_step:
  fixes s s1 :: "'p server"
  assumes "inv_todo s" "procs s1 = procs s" "gtodo g' \<subseteq> sseClients s1"
    and "sseClients s \<subseteq> sseClients s1 \<or> (\<forall>u h. u \<noteq> t \<longrightarrow> procs s u = Some h \<longrightarrow> gtodo h = {})"
  shows "inv_todo (set_proc t g' s1)"
  using assms unfolding inv_todo_def
  by (auto simp add: set_proc_def) blast+

lemma others_no_todo:
  assumes "inv_mu s" "procs s t = Some g" "holds_mu g" "u \<noteq> t" "procs s u = Some h"
  shows "gtodo h = {}"
proof (rule ccontr)
  assume "gtodo h \<noteq> {}"
  then obtain x where "x \<in> gtodo h" by blast
  then have "holds_mu h" by (rule gtodo_holds)
  then have "holder s u" using assms(5) by (simp add: holder_def)
  moreover have "holder s t" using assms(2,3) by (simp add: holder_def)
  ultimately show False using assms(1,4) by (auto simp add: inv_mu_def)
qed

lemma ch_plain:
  fixes s s1 :: "'p server"
  assumes "inv_ch s" "procs s t = Some g" "procs s1 = procs s"
    and "nextc s1 = nextc s" "sseClients s1 = sseClients s"
    and "\<forall>c. is_closed (chans s1 c) = is_closed (chans s c)"
    and "gchan g' = gchan g" "greg g' = greg g" "gret g' = gret g"
  shows "inv_ch (set_proc t g' s1)"
  unfolding inv_ch_def
proof (intro conjI)
  show "inv_chan (set_proc t g' s1)"
    using assms unfolding inv_ch_def inv_chan_def
    by (auto simp add: set_proc_def)
  show "inv_own (set_proc t g' s1)"
    using assms unfolding inv_ch_def inv_own_def
    by (simp add: set_proc_def) metis
  show "inv_reg (set_proc t g' s1)"
    using assms unfolding inv_ch_def inv_reg_def
    by (auto simp add: set_proc_def)
qed

lemma ch_make:
  fixes s s1 :: "'p server"
  assumes "inv_ch s" "procs s t = Some g" "procs s1 = procs s"
    and "nextc s1 = Suc (nextc s)" "sseClients s1 = sseClients s"
    and "\<forall>c. c \<noteq> nextc s \<longrightarrow> chans s1 c = chans s c" "\<not> is_closed (chans s1 (nextc s))"
    and "gchan g' = Some (nextc s)" "\<not> greg g'" "\<not> gret g'"
  shows "inv_ch (set_proc t g' s1)"
  unfolding inv_ch_def
proof (intro conjI)
  have lt: "\<And>u h c. procs s u = Some h \<Longrightarrow> gchan h = Some c \<Longrightarrow> c < nextc s"
    using assms(1) unfolding inv_ch_def inv_chan_def by blast
  have fresh: "nextc s \<notin> sseClients s"
    using assms(1) unfolding inv_ch_def inv_reg_def by blast
  show "inv_chan (set_proc t g' s1)"
    unfolding inv_chan_def
  proof (intro allI impI)
    fix u h c assume u: "procs (set_proc t g' s1) u = Some h" and c: "gchan h = Some c"
    show "c < nextc (set_proc t g' s1) \<and> is_closed (chans (set_proc t g' s1) c) = gret h
           \<and> (c \<in> sseClients (set_proc t g' s1)) = greg h"
    proof (cases "u = t")
      case True
      with u c assms fresh show ?thesis by (simp)
    next
      case False
      with u have pu: "procs s u = Some h" by (simp add: assms(3))
      from lt [OF pu c] have "c \<noteq> nextc s" "c < nextc s" by auto
      moreover from assms(1) pu c have "is_closed (chans s c) = gret h \<and> (c \<in> sseClients s) = greg h"
        unfolding inv_ch_def inv_chan_def by blast
      ultimately show ?thesis using assms(4,5,6) by simp
    qed
  qed
  show "inv_own (set_proc t g' s1)"
    unfolding inv_own_def
  proof (intro allI impI)
    fix u u' h h' c
    assume u: "procs (set_proc t g' s1) u = Some h" and u': "procs (set_proc t g' s1) u' = Some h'"
      and c: "gchan h = Some c" and c': "gchan h' = Some c"
    show "u = u'"
    proof (cases "u = t"; cases "u' = t")
      assume "u = t" "u' = t" then show ?thesis by simp
    next
      assume a: "u = t" "u' \<noteq> t"
      with u u' have "h = g'" "procs s u' = Some h'" by (simp_all add: assms(3))
      with c c' assms(8) lt show ?thesis by fastforce
    next
      assume a: "u \<noteq> t" "u' = t"
      with u u' have "h' = g'" "procs s u = Some h" by (simp_all add: assms(3))
      with c c' assms(8) lt show ?thesis by fastforce
    next
      assume a: "u \<noteq> t" "u' \<noteq> t"
      with u u' have "procs s u = Some h" "procs s u' = Some h'" by (simp_all add: assms(3))
      with c c' assms(1) show ?thesis unfolding inv_ch_def inv_own_def by blast
    qed
  qed
  show "inv_reg (set_proc t g' s1)"
    using assms(1,4,5,6) fresh unfolding inv_ch_def inv_reg_def
    by (auto simp add: less_Suc_eq)
qed

lemma ch_own_frame:
  fixes s s1 :: "'p server"
  assumes "inv_own s" "procs s t = Some g" "procs s1 = procs s" "gchan g' = gchan g"
  shows "inv_own (set_proc t g' s1)"
  using assms unfolding inv_own_def
  by (simp add: set_proc_def) metis

lemma ch_other:
  assumes "inv_own s" "procs s t = Some g" "gchan g = Some c" "u \<noteq> t" "procs s u = Some h"
  shows "gchan h \<noteq> Some c"
  using assms unfolding inv_own_def by blast

lemma ch_insert:
  fixes s s1 :: "'p server"
  assumes "inv_ch s" "procs s t = Some g" "procs s1 = procs s"
    and "nextc s1 = nextc s" "sseClients s1 = insert c (sseClients s)" "chans s1 = chans s"
    and "gchan g = Some c" "gchan g' = Some c" "greg g'" "\<not> gret g" "\<not> gret g'"
  shows "inv_ch (set_proc t g' s1)"
  unfolding inv_ch_def
proof (intro conjI)
  have own: "inv_own s" and ch: "inv_chan s" and reg: "inv_reg s"
    using assms(1) by (simp_all add: inv_ch_def)
  have mine: "c < nextc s" "\<not> is_closed (chans s c)"
    using ch assms(2,7,10) unfolding inv_chan_def by blast+
  show "inv_own (set_proc t g' s1)"
    using own assms(2,3,7,8) by (simp add: ch_own_frame)
  show "inv_reg (set_proc t g' s1)"
    using reg mine assms(4,5,6) unfolding inv_reg_def by auto
  show "inv_chan (set_proc t g' s1)"
    unfolding inv_chan_def
  proof (intro allI impI)
    fix u h d assume u: "procs (set_proc t g' s1) u = Some h" and d: "gchan h = Some d"
    show "d < nextc (set_proc t g' s1) \<and> is_closed (chans (set_proc t g' s1) d) = gret h
           \<and> (d \<in> sseClients (set_proc t g' s1)) = greg h"
    proof (cases "u = t")
      case True
      with u d assms mine show ?thesis by simp
    next
      case False
      with u have pu: "procs s u = Some h" by (simp add: assms(3))
      have "d \<noteq> c" using ch_other [OF own assms(2,7) False pu] d by simp
      moreover from ch pu d have "d < nextc s \<and> is_closed (chans s d) = gret h \<and> (d \<in> sseClients s) = greg h"
        unfolding inv_chan_def by blast
      ultimately show ?thesis using assms(4,5,6) by simp
    qed
  qed
qed

lemma ch_delete:
  fixes s s1 :: "'p server"
  assumes "inv_ch s" "procs s t = Some g" "procs s1 = procs s"
    and "nextc s1 = nextc s" "sseClients s1 = sseClients s - {c}" "chans s1 = chans s"
    and "gchan g = Some c" "gchan g' = Some c" "\<not> greg g'" "gret g' = gret g"
  shows "inv_ch (set_proc t g' s1)"
  unfolding inv_ch_def
proof (intro conjI)
  have own: "inv_own s" and ch: "inv_chan s" and reg: "inv_reg s"
    using assms(1) by (simp_all add: inv_ch_def)
  have mine: "c < nextc s" "is_closed (chans s c) = gret g"
    using ch assms(2,7) unfolding inv_chan_def by blast+
  show "inv_own (set_proc t g' s1)"
    using own assms(2,3,7,8) by (simp add: ch_own_frame)
  show "inv_reg (set_proc t g' s1)"
    using reg assms(4,5,6) unfolding inv_reg_def by auto
  show "inv_chan (set_proc t g' s1)"
    unfolding inv_chan_def
  proof (intro allI impI)
    fix u h d assume u: "procs (set_proc t g' s1) u = Some h" and d: "gchan h = Some d"
    show "d < nextc (set_proc t g' s1) \<and> is_closed (chans (set_proc t g' s1) d) = gret h
           \<and> (d \<in> sseClients (set_proc t g' s1)) = greg h"
    proof (cases "u = t")
      case True
      with u d assms mine show ?thesis by simp
    next
      case False
      with u have pu: "procs s u = Some h" by (simp add: assms(3))
      have "d \<noteq> c" using ch_other [OF own assms(2,7) False pu] d by simp
      moreover from ch pu d have "d < nextc s \<and> is_closed (chans s d) = gret h \<and> (d \<in> sseClients s) = greg h"
        unfolding inv_chan_def by blast
      ultimately show ?thesis using assms(4,5,6) by simp
    qed
  qed
qed

lemma ch_close:
  fixes s s1 :: "'p server"
  assumes "inv_ch s" "procs s t = Some g" "procs s1 = procs s"
    and "nextc s1 = nextc s" "sseClients s1 = sseClients s"
    and "\<forall>d. d \<noteq> c \<longrightarrow> chans s1 d = chans s d" "is_closed (chans s1 c)"
    and "gchan g = Some c" "gchan g' = Some c" "\<not> greg g" "\<not> greg g'" "gret g'"
  shows "inv_ch (set_proc t g' s1)"
  unfolding inv_ch_def
proof (intro conjI)
  have own: "inv_own s" and ch: "inv_chan s" and reg: "inv_reg s"
    using assms(1) by (simp_all add: inv_ch_def)
  have mine: "c < nextc s" "c \<notin> sseClients s"
    using ch assms(2,8,10) unfolding inv_chan_def by blast+
  show "inv_own (set_proc t g' s1)"
    using own assms(2,3,8,9) by (simp add: ch_own_frame)
  show "inv_reg (set_proc t g' s1)"
    using reg mine assms(4,5,6) unfolding inv_reg_def by auto
  show "inv_chan (set_proc t g' s1)"
    unfolding inv_chan_def
  proof (intro allI impI)
    fix u h d assume u: "procs (set_proc t g' s1) u = Some h" and d: "gchan h = Some d"
    show "d < nextc (set_proc t g' s1) \<and> is_closed (chans (set_proc t g' s1) d) = gret h
           \<and> (d \<in> sseClients (set_proc t g' s1)) = greg h"
    proof (cases "u = t")
      case True
      with u d assms mine show ?thesis by simp
    next
      case False
      with u have pu: "procs s u = Some h" by (simp add: assms(3))
      have "d \<noteq> c" using ch_other [OF own assms(2,8) False pu] d by simp
      moreover from ch pu d have "d < nextc s \<and> is_closed (chans s d) = gret h \<and> (d \<in> sseClients s) = greg h"
        unfolding inv_chan_def by blast
      ultimately show ?thesis using assms(4,5,6) by simp
    qed
  qed
qed

lemma ch_spawn:
  assumes "inv_ch s" "procs s t = None" "gchan g' = None"
  shows "inv_ch (set_proc t g' s)"
  unfolding inv_ch_def
proof (intro conjI)
  show "inv_chan (set_proc t g' s)"
    using assms unfolding inv_ch_def inv_chan_def by (auto simp add: set_proc_def)
  show "inv_own (set_proc t g' s)"
    using assms unfolding inv_ch_def inv_own_def by (simp add: set_proc_def)
  show "inv_reg (set_proc t g' s)"
    using assms unfolding inv_ch_def inv_reg_def by (auto simp add: set_proc_def)
qed

lemma inv_plain:
  fixes s s1 :: "'p server"
  assumes "consistent s" "procs s t = Some g" "procs s1 = procs s"
    and "nextc s1 = nextc s" "sseClients s1 = sseClients s"
    and "\<forall>c. is_closed (chans s1 c) = is_closed (chans s c)"
    and "gchan g' = gchan g" "greg g' = greg g" "gret g' = gret g"
    and "gtodo g' \<subseteq> sseClients s" "mu_ok s g s1 g'"
  shows "consistent (set_proc t g' s1)"
proof -
  from assms(1) have c: "inv_ch s" and m: "inv_mu s" and d: "inv_todo s"
    by (simp_all add: consistent_def)
  have 1: "inv_ch (set_proc t g' s1)"
    by (rule ch_plain [OF c assms(2,3,4,5,6,7,8,9)])
  have 2: "inv_mu (set_proc t g' s1)"
    by (rule mu_step [OF m assms(2,3,11)])
  have 3: "inv_todo (set_proc t g' s1)"
    by (rule todo_step [OF d assms(3)]) (simp_all add: assms(5,10))
  show ?thesis by (simp add: consistent_def 1 2 3)
qed

lemma inv_make:
  fixes s s1 :: "'p server"
  assumes "consistent s" "procs s t = Some g" "procs s1 = procs s"
    and "nextc s1 = Suc (nextc s)" "sseClients s1 = sseClients s" "mu s1 = mu s"
    and "\<forall>c. c \<noteq> nextc s \<longrightarrow> chans s1 c = chans s c" "\<not> is_closed (chans s1 (nextc s))"
    and "gchan g' = Some (nextc s)" "\<not> greg g'" "\<not> gret g'"
    and "gtodo g' = {}" "holds_mu g' = holds_mu g"
  shows "consistent (set_proc t g' s1)"
proof -
  from assms(1) have c: "inv_ch s" and m: "inv_mu s" and d: "inv_todo s"
    by (simp_all add: consistent_def)
  have 1: "inv_ch (set_proc t g' s1)"
    by (rule ch_make [OF c assms(2,3,4,5,7,8,9,10,11)])
  have 2: "inv_mu (set_proc t g' s1)"
    by (rule mu_step [OF m assms(2,3)]) (simp add: mu_ok_def assms(6,13))
  have 3: "inv_todo (set_proc t g' s1)"
    by (rule todo_step [OF d assms(3)]) (simp_all add: assms(5,12))
  show ?thesis by (simp add: consistent_def 1 2 3)
qed

lemma inv_insert:
  fixes s s1 :: "'p server"
  assumes "consistent s" "procs s t = Some g" "procs s1 = procs s"
    and "nextc s1 = nextc s" "sseClients s1 = insert c (sseClients s)" "chans s1 = chans s"
    and "mu s1 = mu s"
    and "gchan g = Some c" "gchan g' = Some c" "greg g'" "\<not> gret g" "\<not> gret g'"
    and "gtodo g' = {}" "holds_mu g' = holds_mu g"
  shows "consistent (set_proc t g' s1)"
proof -
  from assms(1) have c: "inv_ch s" and m: "inv_mu s" and d: "inv_todo s"
    by (simp_all add: consistent_def)
  have 1: "inv_ch (set_proc t g' s1)"
    by (rule ch_insert [OF c assms(2,3,4,5,6,8,9,10,11,12)])
  have 2: "inv_mu (set_proc t g' s1)"
    by (rule mu_step [OF m assms(2,3)]) (simp add: mu_ok_def assms(7,14))
  have 3: "inv_todo (set_proc t g' s1)"
    by (rule todo_step [OF d assms(3)]) (auto simp add: assms(5,13))
  show ?thesis by (simp add: consistent_def 1 2 3)
qed

lemma inv_delete:
  fixes s s1 :: "'p server"
  assumes "consistent s" "procs s t = Some g" "procs s1 = procs s"
    and "nextc s1 = nextc s" "sseClients s1 = sseClients s - {c}" "chans s1 = chans s"
    and "mu s1 = mu s"
    and "gchan g = Some c" "gchan g' = Some c" "\<not> greg g'" "gret g' = gret g"
    and "gtodo g' = {}" "holds_mu g" "holds_mu g'"
  shows "consistent (set_proc t g' s1)"
proof -
  from assms(1) have c: "inv_ch s" and m: "inv_mu s" and d: "inv_todo s"
    by (simp_all add: consistent_def)
  have o: "\<forall>u h. u \<noteq> t \<longrightarrow> procs s u = Some h \<longrightarrow> gtodo h = {}"
    using others_no_todo [OF m assms(2,13)] by blast
  have 1: "inv_ch (set_proc t g' s1)"
    by (rule ch_delete [OF c assms(2,3,4,5,6,8,9,10,11)])
  have 2: "inv_mu (set_proc t g' s1)"
    by (rule mu_step [OF m assms(2,3)]) (simp add: mu_ok_def assms(7,13,14))
  have 3: "inv_todo (set_proc t g' s1)"
    by (rule todo_step [OF d assms(3)]) (use o in \<open>simp_all add: assms(12)\<close>)
  show ?thesis by (simp add: consistent_def 1 2 3)
qed

lemma inv_close:
  fixes s s1 :: "'p server"
  assumes "consistent s" "procs s t = Some g" "procs s1 = procs s"
    and "nextc s1 = nextc s" "sseClients s1 = sseClients s" "mu s1 = mu s"
    and "\<forall>d. d \<noteq> c \<longrightarrow> chans s1 d = chans s d" "is_closed (chans s1 c)"
    and "gchan g = Some c" "gchan g' = Some c" "\<not> greg g" "\<not> greg g'" "gret g'"
    and "gtodo g' = {}" "holds_mu g' = holds_mu g"
  shows "consistent (set_proc t g' s1)"
proof -
  from assms(1) have c: "inv_ch s" and m: "inv_mu s" and d: "inv_todo s"
    by (simp_all add: consistent_def)
  have 1: "inv_ch (set_proc t g' s1)"
    by (rule ch_close [OF c assms(2,3,4,5,7,8,9,10,11,12,13)])
  have 2: "inv_mu (set_proc t g' s1)"
    by (rule mu_step [OF m assms(2,3)]) (simp add: mu_ok_def assms(6,15))
  have 3: "inv_todo (set_proc t g' s1)"
    by (rule todo_step [OF d assms(3)]) (simp_all add: assms(5,14))
  show ?thesis by (simp add: consistent_def 1 2 3)
qed

lemma inv_spawn:
  assumes "consistent s" "procs s t = None" "gchan g' = None" "\<not> holds_mu g'" "gtodo g' = {}"
  shows "consistent (set_proc t g' s)"
proof -
  from assms(1) have c: "inv_ch s" and m: "inv_mu s" and d: "inv_todo s"
    by (simp_all add: consistent_def)
  have 1: "inv_ch (set_proc t g' s)"
    by (rule ch_spawn [OF c assms(2,3)])
  have 2: "inv_mu (set_proc t g' s)"
    by (rule mu_spawn [OF m assms(2,4)])
  have 3: "inv_todo (set_proc t g' s)"
    by (rule todo_step [OF d refl]) (simp_all add: assms(5))
  show ?thesis by (simp add: consistent_def 1 2 3)
qed

lemma inv_player [simp]: "consistent (s\<lparr>playerState := p\<rparr>) = consistent s"
  by (simp add: consistent_defs holder_def)


lemmas step_simps = then_at_def Lock_def Unlock_def mu_ok_def

lemma sse_step_inv:
  assumes "consistent s" "procs s t = Some (SseHandler l)" "sse_step pcl marshal t l s = Inr s'"
  shows "consistent s'"
proof (cases "pc l")
  case SseEntry
  then show ?thesis using assms
    by (auto simp add: sse_step_def make_chan_def intro!: inv_make [where g="SseHandler l"])
next
  case SseLock
  then show ?thesis using assms
    by (auto simp add: sse_step_def step_simps split: if_splits
          intro!: inv_plain [where g="SseHandler l"])
next
  case SseInsert
  then show ?thesis using assms
    by (auto simp add: sse_step_def intro!: inv_insert [where g="SseHandler l"])
next
  case SseUnlock
  then show ?thesis using assms
    by (auto simp add: sse_step_def step_simps split: if_splits
          intro!: inv_plain [where g="SseHandler l"])
next
  case SseCheck
  then show ?thesis using assms
    by (auto simp add: sse_step_def step_simps split: if_splits
          intro!: inv_plain [where g="SseHandler l"])
next
  case SseInit
  then show ?thesis using assms
    by (auto simp add: sse_step_def step_simps Let_def split: prod.splits
          intro!: inv_plain [where g="SseHandler l"])
next
  case SseSelect
  then show ?thesis using assms by (simp add: sse_step_def)
next
  case DeferLock
  then show ?thesis using assms
    by (auto simp add: sse_step_def step_simps split: if_splits
          intro!: inv_plain [where g="SseHandler l"])
next
  case DeferDelete
  then show ?thesis using assms
    by (auto simp add: sse_step_def intro!: inv_delete [where g="SseHandler l"])
next
  case DeferUnlock
  then show ?thesis using assms
    by (auto simp add: sse_step_def step_simps split: if_splits
          intro!: inv_plain [where g="SseHandler l"])
next
  case DeferClose
  then show ?thesis using assms
    by (auto simp add: sse_step_def close_chan_def split: if_splits
          intro!: inv_close [where g="SseHandler l" and c="clientChan l"])
next
  case SseReturned
  then show ?thesis using assms by (simp add: sse_step_def)
qed

lemma sse_recv_inv:
  assumes "consistent s" "procs s t = Some (SseHandler l)" "sse_recv t l s = Inr s'"
  shows "consistent s'"
  using assms
  by (auto simp add: sse_recv_def try_recv_def step_simps split: if_splits list.splits
        intro!: inv_plain [where g="SseHandler l"])

lemma sse_done_inv:
  assumes "consistent s" "procs s t = Some (SseHandler l)" "sse_done t l s = Inr s'"
  shows "consistent s'"
  using assms
  by (auto simp add: sse_done_def step_simps split: if_splits
        intro!: inv_plain [where g="SseHandler l"])

lemma bc_step_inv:
  assumes "consistent s" "procs s t = Some (Broadcast b)" "bc_step marshal t b s = Inr s'"
  shows "consistent s'"
  using assms
  by (cases "bpc b")
     (auto simp add: bc_step_def step_simps split: if_splits sum.splits
        intro!: inv_plain [where g="Broadcast b"])

lemma bc_range_inv:
  assumes "consistent s" "procs s t = Some (Broadcast b)" "bc_range t c b s = Inr s'"
  shows "consistent s'"
proof -
  from assms(3) have r: "bpc b = BcRange" "c \<in> todo b"
    by (auto simp add: bc_range_def split: if_splits)
  from assms(1,2) have "gtodo (Broadcast b) \<subseteq> sseClients s"
    unfolding consistent_def inv_todo_def by blast
  with r have "todo b \<subseteq> sseClients s" by simp
  then show ?thesis
    using assms
    by (auto simp add: bc_range_def try_send_def step_simps split: if_splits
          intro!: inv_plain [where g="Broadcast b"])
qed

lemma step_inv:
  assumes "consistent s" "step pcl marshal a s = Inr s'"
  shows "consistent s'"
proof (cases a)
  case (Serve_events t fl rq)
  then show ?thesis using assms
    by (auto split: option.splits intro!: inv_spawn)
next
  case (Call_broadcast t st)
  then show ?thesis using assms
    by (auto split: option.splits intro!: inv_spawn)
next
  case (Cancel t)
  then show ?thesis using assms
    by (auto simp add: step_simps split: option.splits goroutine.splits
          intro!: inv_plain)
next
  case (Player_changes p)
  then show ?thesis using assms by auto
next
  case (Step t)
  then show ?thesis using assms
    by (auto split: option.splits goroutine.splits intro: sse_step_inv bc_step_inv)
next
  case (Select_recv t)
  then show ?thesis using assms
    by (auto split: option.splits goroutine.splits intro: sse_recv_inv)
next
  case (Select_done t)
  then show ?thesis using assms
    by (auto split: option.splits goroutine.splits intro: sse_done_inv)
next
  case (Range_next t c)
  then show ?thesis using assms
    by (auto split: option.splits goroutine.splits intro: bc_range_inv)
qed

lemma run_inv:
  "consistent s \<Longrightarrow> run pcl marshal as s = Inr s' \<Longrightarrow> consistent s'"
proof (induction as arbitrary: s)
  case Nil
  then show ?case by simp
next
  case (Cons a as)
  then show ?case
    by (auto split: sum.splits dest: step_inv)
qed







lemma inv_w_init: "inv_w m (NewHTTPController p)"
  by (simp add: inv_w_def NewHTTPController_def)

lemma inv_w_set:
  assumes "inv_w m s" "procs s1 = procs s" "\<And>l'. g' = SseHandler l' \<Longrightarrow> good_w m (pc l') l'"
  shows "inv_w m (set_proc t g' s1)"
  using assms unfolding inv_w_def by (auto simp add: set_proc_def)

lemma inv_w_player [simp]: "inv_w m (s\<lparr>playerState := p\<rparr>) = inv_w m s"
  by (simp add: inv_w_def)

lemma push_frame_simps [simp]:
  "flusher (push_frame d rw) = flusher rw"
  "written (push_frame d rw) = written rw @ [sse_frame d]"
  "flushed (push_frame d rw) = Suc (length (written rw))"
  "code (push_frame d rw) = (if code rw = None then Some StatusOK else code rw)"
  by (simp_all add: push_frame_def Flush_def Write_def WriteHeader_def Let_def)

lemma sse_headers_simps [simp]:
  "flusher (sse_headers rw) = flusher rw"
  "written (sse_headers rw) = written rw"
  "flushed (sse_headers rw) = flushed rw"
  "code (sse_headers rw) = code rw"
  by (simp_all add: sse_headers_def Header_Set_def)

lemma http_Error_simps [simp]:
  "flusher (http_Error msg c rw) = flusher rw"
  "written (http_Error msg c rw) = written rw @ [msg @ ''\<newline>'']"
  "flushed (http_Error msg c rw) = flushed rw"
  "code (http_Error msg c rw) = (if code rw = None then Some c else code rw)"
  by (simp_all add: http_Error_def Header_Set_def Header_Del_def Write_def WriteHeader_def Let_def)

lemma untouched_upd [simp]:
  "untouched (l\<lparr>pc := p\<rparr>) = untouched l"
  "untouched (l\<lparr>sr := r\<rparr>) = untouched l"
  "untouched (l\<lparr>clientChan := c\<rparr>) = untouched l"
  by (simp_all add: untouched_def)

lemma streaming_upd [simp]:
  "streaming m (l\<lparr>pc := p\<rparr>) = streaming m l"
  "streaming m (l\<lparr>sr := r\<rparr>) = streaming m l"
  "streaming m (l\<lparr>clientChan := c\<rparr>) = streaming m l"
  by (simp_all add: streaming_def)

lemma refused_upd [simp]:
  "refused (l\<lparr>pc := p\<rparr>) = refused l"
  "refused (l\<lparr>sr := r\<rparr>) = refused l"
  "refused (l\<lparr>clientChan := c\<rparr>) = refused l"
  by (simp_all add: refused_def)

lemma good_w_sr [simp]: "good_w m p (l\<lparr>sr := r\<rparr>) = good_w m p l"
  by (cases p) simp_all

lemma streaming_push:
  "streaming m l \<Longrightarrow> streaming m (l\<lparr>sw := push_frame d (sw l)\<rparr>)"
  unfolding streaming_def
  apply (elim conjE exE)
  apply (simp add: StatusOK_def)
  subgoal for ds st by (rule exI [of _ "ds @ [d]"]) simp
  done

lemma sse_step_inv_w:
  assumes "inv_w m s" "procs s t = Some (SseHandler l)" "sse_step pcl m t l s = Inr s'"
  shows "inv_w m s'"
proof -
  have g: "good_w m (pc l) l" using assms(1,2) by (simp add: inv_w_def)
  show ?thesis
  proof (cases "pc l = SseInit \<or> pc l = SseCheck")
    case True
    then show ?thesis
      using assms g
      by (auto simp add: sse_step_def Let_def untouched_def streaming_def refused_def
            StatusOK_def StatusInternalServerError_def
            split: if_splits prod.splits sum.splits intro!: inv_w_set)
  next
    case False
    then show ?thesis
      using assms g
      by (cases "pc l")
         (auto simp add: sse_step_def step_simps close_chan_def untouched_def
            split: if_splits intro!: inv_w_set)
  qed
qed

lemma sse_recv_inv_w:
  assumes "inv_w m s" "procs s t = Some (SseHandler l)" "sse_recv t l s = Inr s'"
  shows "inv_w m s'"
proof -
  have g: "good_w m (pc l) l" using assms(1,2) by (simp add: inv_w_def)
  show ?thesis
    using assms g
    by (auto simp add: sse_recv_def split: if_splits option.splits prod.splits
          intro!: inv_w_set streaming_push)
qed

lemma sse_done_inv_w:
  assumes "inv_w m s" "procs s t = Some (SseHandler l)" "sse_done t l s = Inr s'"
  shows "inv_w m s'"
proof -
  have g: "good_w m (pc l) l" using assms(1,2) by (simp add: inv_w_def)
  show ?thesis
    using assms g
    by (auto simp add: sse_done_def split: if_splits intro!: inv_w_set)
qed

lemma step_inv_w:
  assumes "inv_w m s" "step pcl m a s = Inr s'"
  shows "inv_w m s'"
proof (cases a)
  case (Serve_events t fl rq)
  then show ?thesis using assms
    by (auto simp add: untouched_def new_writer_def split: option.splits intro!: inv_w_set)
next
  case (Call_broadcast t st)
  then show ?thesis using assms
    by (auto split: option.splits intro!: inv_w_set)
next
  case (Cancel t)
  show ?thesis
  proof (cases "procs s t")
    case None
    with Cancel assms show ?thesis by simp
  next
    case (Some g)
    show ?thesis
    proof (cases g)
      case (SseHandler l)
      have "good_w m (pc l) l" using assms(1) Some SseHandler by (simp add: inv_w_def)
      with Cancel assms Some SseHandler show ?thesis
        by (auto intro!: inv_w_set)
    next
      case (Broadcast b)
      with Cancel assms Some show ?thesis by simp
    qed
  qed
next
  case (Player_changes p)
  then show ?thesis using assms by auto
next
  case (Step t)
  then show ?thesis using assms
    by (auto simp add: bc_step_def step_simps
          split: option.splits goroutine.splits bc_pc.splits sum.splits if_splits
          intro: sse_step_inv_w intro!: inv_w_set)
next
  case (Select_recv t)
  then show ?thesis using assms
    by (auto split: option.splits goroutine.splits intro: sse_recv_inv_w)
next
  case (Select_done t)
  then show ?thesis using assms
    by (auto split: option.splits goroutine.splits intro: sse_done_inv_w)
next
  case (Range_next t c)
  then show ?thesis using assms
    by (auto simp add: bc_range_def split: option.splits goroutine.splits sum.splits if_splits
          intro!: inv_w_set)
qed

lemma run_inv_w:
  "inv_w m s \<Longrightarrow> run pcl m as s = Inr s' \<Longrightarrow> inv_w m s'"
proof (induction as arbitrary: s)
  case Nil
  then show ?case by simp
next
  case (Cons a as)
  then show ?case
    by (auto split: sum.splits dest: step_inv_w)
qed

lemma r_method_simps [simp]:
  "r_method m (Inl f) = Inl f"
  "r_method m (Inr s) = Inr (s_method m s)"
  by (simp_all add: r_method_def)

lemma s_method_fields [simp]:
  "procs (s_method m s) t = map_option (g_method m) (procs s t)"
  "mu (s_method m s) = mu s"
  "chans (s_method m s) = chans s"
  "nextc (s_method m s) = nextc s"
  "sseClients (s_method m s) = sseClients s"
  "playerState (s_method m s) = playerState s"
  "slog (s_method m s) = slog s"
  by (simp_all add: s_method_def)

lemma s_method_upd [simp]:
  "s_method m (set_proc t g s) = set_proc t (g_method m g) (s_method m s)"
  "s_method m (s\<lparr>mu := b\<rparr>) = (s_method m s)\<lparr>mu := b\<rparr>"
  "s_method m (s\<lparr>chans := h\<rparr>) = (s_method m s)\<lparr>chans := h\<rparr>"
  "s_method m (s\<lparr>nextc := n\<rparr>) = (s_method m s)\<lparr>nextc := n\<rparr>"
  "s_method m (s\<lparr>sseClients := cs\<rparr>) = (s_method m s)\<lparr>sseClients := cs\<rparr>"
  "s_method m (s\<lparr>playerState := p\<rparr>) = (s_method m s)\<lparr>playerState := p\<rparr>"
  "s_method m (s\<lparr>slog := lg\<rparr>) = (s_method m s)\<lparr>slog := lg\<rparr>"
  by (auto simp add: s_method_def set_proc_def fun_eq_iff)

lemma s_method_init [simp]: "s_method m (NewHTTPController p) = NewHTTPController p"
  by (simp add: s_method_def NewHTTPController_def)

lemma l_method_fields [simp]:
  "pc (l_method m l) = pc l"
  "sw (l_method m l) = sw l"
  "clientChan (l_method m l) = clientChan l"
  "ctx_done (sr (l_method m l)) = ctx_done (sr l)"
  by (simp_all add: l_method_def)

lemma l_method_upd [simp]:
  "l_method m (l\<lparr>pc := p\<rparr>) = (l_method m l)\<lparr>pc := p\<rparr>"
  "l_method m (l\<lparr>sw := w\<rparr>) = (l_method m l)\<lparr>sw := w\<rparr>"
  "l_method m (l\<lparr>clientChan := c\<rparr>) = (l_method m l)\<lparr>clientChan := c\<rparr>"
  "l_method m (l\<lparr>initialStatus := st\<rparr>) = (l_method m l)\<lparr>initialStatus := st\<rparr>"
  "l_method m (l\<lparr>initialData := d\<rparr>) = (l_method m l)\<lparr>initialData := d\<rparr>"
  by (cases l; simp add: l_method_def)+

lemma sse_step_method:
  "sse_step pcl marshal t (l_method m l) (s_method m s) = r_method m (sse_step pcl marshal t l s)"
  by (cases "pc l")
     (simp_all add: sse_step_def then_at_def Lock_def Unlock_def Let_def
        split: prod.splits sum.splits)

lemma sse_recv_method:
  "sse_recv t (l_method m l) (s_method m s) = r_method m (sse_recv t l s)"
  by (simp add: sse_recv_def split: option.splits prod.splits)

lemma sse_done_method:
  "sse_done t (l_method m l) (s_method m s) = r_method m (sse_done t l s)"
  by (simp add: sse_done_def)

lemma bc_step_method:
  "bc_step marshal t b (s_method m s) = r_method m (bc_step marshal t b s)"
  by (cases "bpc b")
     (simp_all add: bc_step_def then_at_def Lock_def Unlock_def split: sum.splits)

lemma bc_range_method:
  "bc_range t c b (s_method m s) = r_method m (bc_range t c b s)"
  by (simp add: bc_range_def split: sum.splits)

lemma l_method_cancel:
  "l_method m (l\<lparr>sr := (sr l)\<lparr>ctx_done := True\<rparr>\<rparr>)
   = (l_method m l)\<lparr>sr := (sr (l_method m l))\<lparr>ctx_done := True\<rparr>\<rparr>"
  by (cases l; cases "sr l") (simp add: l_method_def)

lemma step_method:
  "step pcl marshal (with_method m a) (s_method m s) = r_method m (step pcl marshal a s)"
proof (cases a)
  case (Serve_events t fl rq)
  then show ?thesis by (simp add: l_method_def split: option.splits)
next
  case (Cancel t)
  then show ?thesis
    by (auto simp add: l_method_cancel split: option.splits goroutine.splits)
qed (auto simp add: sse_step_method sse_recv_method sse_done_method bc_step_method
       bc_range_method split: option.splits goroutine.splits)

lemma run_method:
  "run pcl marshal (map (with_method m) as) (s_method m s) = r_method m (run pcl marshal as s)"
proof (induction as arbitrary: s)
  case Nil
  then show ?case by simp
next
  case (Cons a as)
  then show ?case
    by (cases "step pcl marshal a s") (simp_all add: step_method)
qed

lemma range_send_result:
  "distinct cs \<Longrightarrow> \<forall>c \<in> set cs. \<not> is_closed (h c) \<Longrightarrow>
   range_send v cs h = Inr (\<lambda>c. if c \<in> set cs then sent v (h c) else h c)"
proof (induction cs arbitrary: h)
  case Nil
  then show ?case by simp
next
  case (Cons c cs)
  have "range_send v cs (h(c := sent v (h c)))
        = Inr (\<lambda>d. if d \<in> set cs then sent v ((h(c := sent v (h c))) d) else (h(c := sent v (h c))) d)"
    using Cons.prems by (intro Cons.IH) auto
  moreover have "try_send v (h c) = Inr (sent v (h c))"
    using Cons.prems by (simp add: try_send_def sent_def)
  ultimately show ?case
    using Cons.prems by (auto simp add: fun_eq_iff)
qed

lemma reach_consistent:
  "run pcl marshal acts (NewHTTPController p) = Inr s \<Longrightarrow> consistent s"
  by (rule run_inv [OF inv_init])

lemma reach_inv_w:
  "run pcl marshal acts (NewHTTPController p) = Inr s \<Longrightarrow> inv_w marshal s"
  by (rule run_inv_w [OF inv_w_init])



lemma good_w_no_flusher:
  assumes "good_w m (pc l) l" "\<not> flusher (sw l)"
  shows "pc l \<noteq> SseInit \<and> pc l \<noteq> SseSelect
         \<and> (if before_push (pc l) then untouched l else refused l)"
  using assms by (cases "pc l") (auto simp add: streaming_def)

lemma sse_frame_not_refusal: "sse_frame d \<noteq> ''Streaming unsupported!'' @ ''\<newline>''"
  by (simp add: sse_frame_def)

lemma good_w_code:
  "good_w m (pc l) l \<Longrightarrow> code (sw l) \<noteq> Some StatusMethodNotAllowed"
  by (cases "pc l")
     (auto simp add: untouched_def streaming_def refused_def StatusMethodNotAllowed_def
        StatusOK_def StatusInternalServerError_def)

lemmas run_defs = NewHTTPController_def sse_step_def sse_recv_def sse_done_def bc_step_def bc_range_def
  set_proc_def then_at_def Lock_def Unlock_def try_send_def try_recv_def close_chan_def make_chan_def
  demo_marshal_def demo_controller_def demo_status_def new_request_def new_writer_def Let_def

lemma demo_connect_run:
  "\<exists>s l. run (demo_controller None) demo_marshal demo_connect (NewHTTPController 0) = Inr s
     \<and> procs s 1 = Some (SseHandler l) \<and> pc l = SseSelect \<and> flusher (sw l)
     \<and> Method (sr l) = ''POST'' \<and> clientChan l = 0 \<and> sseClients s = {0}
     \<and> written (sw l) = [sse_frame demo_json, sse_frame demo_json]
     \<and> code (sw l) = Some 200"
  by (simp add: demo_connect_def run_defs push_frame_def Flush_def Write_def WriteHeader_def
        sse_headers_def Header_Set_def StatusOK_def demo_json_def)



lemma demo_refuse_run:
  "\<exists>s l. run (demo_controller None) demo_marshal demo_refuse (NewHTTPController 0) = Inr s
     \<and> procs s 1 = Some (SseHandler l) \<and> pc l = DeferLock \<and> \<not> flusher (sw l)"
  by (simp add: demo_refuse_def run_defs)

section \<open>The publisher, step by step, computes what the uninterrupted call computes\<close>

text \<open>
  When a publisher is started on a free mutex and no other goroutine takes a step until it
  has returned, its statements, with the range loop visiting the registry in the order
  \<open>order\<close>, lead to the state that \<open>BroadcastStatus\<close> returns.
\<close>

lemma run_append:
  "run pcl marshal (as @ bs) s =
     (case run pcl marshal as s of Inl f \<Rightarrow> Inl f | Inr s' \<Rightarrow> run pcl marshal bs s')"
  by (induction as arbitrary: s) (auto split: sum.splits)

lemma set_proc_twice [simp]: "set_proc t g (set_proc t g' s) = set_proc t g s"
  by (simp add: set_proc_def)

lemma set_proc_chans: "(set_proc t g s)\<lparr>chans := h\<rparr> = set_proc t g (s\<lparr>chans := h\<rparr>)"
  by (simp add: set_proc_def)

lemma bc_range_loop:
  fixes s :: "'p server"
  assumes "procs s t = Some (Broadcast b)" "bpc b = BcRange" "distinct cs" "set cs \<subseteq> todo b"
    and "\<forall>c \<in> set cs. \<not> is_closed (chans s c)"
  shows "run pcl marshal (map (Range_next t) cs) s =
           Inr (set_proc t (Broadcast (b\<lparr>todo := todo b - set cs\<rparr>))
                  (s\<lparr>chans := (\<lambda>c. if c \<in> set cs then sent (jsonData b) (chans s c) else chans s c)\<rparr>))"
  using assms
proof (induction cs arbitrary: s b)
  case Nil
  have "s\<lparr>chans := chans s\<rparr> = s" by simp
  moreover have "b\<lparr>todo := todo b\<rparr> = b" by simp
  moreover have "set_proc t (Broadcast b) s = s"
    using Nil.prems(1) by (cases s) (auto simp add: set_proc_def fun_eq_iff)
  ultimately show ?case by simp
next
  case (Cons c cs)
  let ?b1 = "b\<lparr>todo := todo b - {c}\<rparr>"
  let ?s1 = "set_proc t (Broadcast ?b1) (s\<lparr>chans := (chans s)(c := sent (jsonData b) (chans s c))\<rparr>)"
  have st: "step pcl marshal (Range_next t c) s = Inr ?s1"
    using Cons.prems by (simp add: bc_range_def try_send_def sent_def)
  have ih: "run pcl marshal (map (Range_next t) cs) ?s1 =
      Inr (set_proc t (Broadcast (?b1\<lparr>todo := todo ?b1 - set cs\<rparr>))
             (?s1\<lparr>chans := (\<lambda>d. if d \<in> set cs then sent (jsonData ?b1) (chans ?s1 d) else chans ?s1 d)\<rparr>))"
    using Cons.prems by (intro Cons.IH) auto
  have c: "c \<notin> set cs" using Cons.prems(3) by simp
  have fin: "set_proc t (Broadcast (?b1\<lparr>todo := todo ?b1 - set cs\<rparr>))
             (?s1\<lparr>chans := (\<lambda>d. if d \<in> set cs then sent (jsonData ?b1) (chans ?s1 d) else chans ?s1 d)\<rparr>)
       = set_proc t (Broadcast (b\<lparr>todo := todo b - set (c # cs)\<rparr>))
             (s\<lparr>chans := (\<lambda>d. if d \<in> set (c # cs) then sent (jsonData b) (chans s d) else chans s d)\<rparr>)"
  proof -
    have 1: "todo b - {c} - set cs = todo b - set (c # cs)" by auto
    have 2: "(\<lambda>d. if d \<in> set cs then sent (jsonData ?b1) (chans ?s1 d) else chans ?s1 d)
           = (\<lambda>d. if d \<in> set (c # cs) then sent (jsonData b) (chans s d) else chans s d)"
      using c by (auto simp add: fun_eq_iff set_proc_def)
    have 3: "?b1\<lparr>todo := todo ?b1 - set cs\<rparr> = b\<lparr>todo := todo b - set (c # cs)\<rparr>"
      using 1 by simp
    show ?thesis
      unfolding 2 3 by (simp add: set_proc_def)
  qed
  have "run pcl marshal (map (Range_next t) (c # cs)) s = run pcl marshal (map (Range_next t) cs) ?s1"
    using st by simp
  then show ?case unfolding ih fin .
qed


lemma publisher_run_is_BroadcastStatus:
  fixes s :: "'p server"
  assumes "procs s t = None" "\<not> mu s" "distinct order" "set order = sseClients s"
    and "\<forall>c \<in> sseClients s. \<not> is_closed (chans s c)" "marshal st = Inr js"
  shows "\<exists>s'. BroadcastStatus marshal order st s = Inr s'
           \<and> run pcl marshal
                ([Call_broadcast t st, Step t, Step t] @ map (Range_next t) order @ [Step t, Step t]) s
               = Inr (set_proc t
                        (Broadcast \<lparr>bpc = BcReturned, status = st, jsonData = js, todo = {}\<rparr>) s')"
proof -
  let ?h = "\<lambda>c. if c \<in> set order then sent js (chans s c) else chans s c"
  let ?b = "\<lparr>bpc = BcRange, status = st, jsonData = js, todo = sseClients s\<rparr>"
  let ?s3 = "set_proc t (Broadcast ?b) (s\<lparr>mu := True\<rparr>)"
  have r: "range_send js order (chans s) = Inr ?h"
    using assms(3,4,5) by (intro range_send_result) auto
  have b: "BroadcastStatus marshal order st s = Inr (s\<lparr>mu := True, chans := ?h, mu := False\<rparr>)"
    using assms(2,6) r by (simp add: BroadcastStatus_def Let_def)
  have 1: "run pcl marshal [Call_broadcast t st, Step t, Step t] s = Inr ?s3"
    using assms(1,2,6) by (simp add: bc_step_def then_at_def Lock_def set_proc_def)
  have 2: "run pcl marshal (map (Range_next t) order) ?s3
      = Inr (set_proc t (Broadcast (?b\<lparr>todo := todo ?b - set order\<rparr>))
               (?s3\<lparr>chans := (\<lambda>c. if c \<in> set order then sent (jsonData ?b) (chans ?s3 c)
                                  else chans ?s3 c)\<rparr>))"
    using assms(3,4,5) by (intro bc_range_loop) simp_all
  let ?s4 = "set_proc t (Broadcast (?b\<lparr>todo := {}\<rparr>)) (s\<lparr>mu := True, chans := ?h\<rparr>)"
  have 3: "set_proc t (Broadcast (?b\<lparr>todo := todo ?b - set order\<rparr>))
               (?s3\<lparr>chans := (\<lambda>c. if c \<in> set order then sent (jsonData ?b) (chans ?s3 c)
                                  else chans ?s3 c)\<rparr>) = ?s4"
  proof -
    have f: "(\<lambda>c. if c \<in> set order then sent (jsonData ?b) (chans ?s3 c) else chans ?s3 c) = ?h"
      by (simp add: fun_eq_iff set_proc_def)
    have g: "?b\<lparr>todo := todo ?b - set order\<rparr> = ?b\<lparr>todo := {}\<rparr>"
      using assms(4) by simp
    show ?thesis unfolding f g by (simp add: set_proc_def)
  qed
  have 4: "run pcl marshal [Step t, Step t] ?s4
      = Inr (set_proc t (Broadcast \<lparr>bpc = BcReturned, status = st, jsonData = js, todo = {}\<rparr>)
               (s\<lparr>mu := True, chans := ?h, mu := False\<rparr>))"
    by (simp add: bc_step_def then_at_def Unlock_def set_proc_def)
  have "run pcl marshal
          ([Call_broadcast t st, Step t, Step t] @ map (Range_next t) order @ [Step t, Step t]) s
        = run pcl marshal [Step t, Step t] ?s4"
    by (simp only: run_append 1 2 3 sum.case)
  from this 4 have "run pcl marshal
          ([Call_broadcast t st, Step t, Step t] @ map (Range_next t) order @ [Step t, Step t]) s
        = Inr (set_proc t (Broadcast \<lparr>bpc = BcReturned, status = st, jsonData = js, todo = {}\<rparr>)
               (s\<lparr>mu := True, chans := ?h, mu := False\<rparr>))"
    by (rule trans)
  with b show ?thesis by blast
qed

section \<open>The claims\<close>

lemmas handler_core_defs =
  commandHandler_def statusHandler_def dispatch_def respond_def call_SetPlayMode_def
  call_ActivateIntelligentMode_def call_GetStatus_def call_unit_def WriteHeader_def Write_def
  new_conn_def new_writer_def new_request_def Body_Close_def
  MethodPost_def MethodGet_def StatusOK_def StatusBadRequest_def StatusMethodNotAllowed_def
  StatusInternalServerError_def error_body_def ok_body_def

lemmas handler_defs = handler_core_defs mode_of_arg_def

lemma mode_of_arg_names:
  assumes "(a, m) \<in> {(''ordered'', PmOrdered), (''list_loop'', PmListLoop),
                      (''single_loop'', PmSingleLoop), (''list_random'', PmListRandom),
                      (''inf_random'', PmInfRandom)}"
  shows "mode_of_arg a = Some m"
  using assms by (auto simp add: mode_of_arg_def)






text \<open>
  C2. A call of \<^verbatim>\<open>BroadcastStatus\<close> that finds the mutex free, on a registry whose
  channels are all open, with a snapshot that \<^verbatim>\<open>json.Marshal\<close> encodes as \<open>js\<close>, returns;
  whatever the order in which the range loop visits the registry, every registered channel
  with room in its buffer has \<open>js\<close> appended, every registered channel whose buffer is full
  is left as it was, and nothing else in the controller changes. With an empty registry the
  call changes nothing at all.
\<close>

theorem BroadcastStatus_delivers:
  fixes s :: "'p server"
  assumes "\<not> mu s" and "set order = sseClients s" and "distinct order"
    and "\<forall>c \<in> sseClients s. \<not> is_closed (chans s c)"
    and "marshal st = Inr js"
  shows "\<exists>s'. BroadcastStatus marshal order st s = Inr s'
           \<and> s' = s\<lparr>chans := chans s'\<rparr>
           \<and> (\<forall>c. chans s' c =
                  (if c \<in> sseClients s \<and> length (buf (chans s c)) < cap (chans s c)
                   then (chans s c)\<lparr>buf := buf (chans s c) @ [js]\<rparr>
                   else chans s c))
           \<and> (sseClients s = {} \<longrightarrow> s' = s)"
proof -
  let ?h = "\<lambda>c. if c \<in> set order then sent js (chans s c) else chans s c"
  have r: "range_send js order (chans s) = Inr ?h"
    using assms(2,3,4) by (intro range_send_result) auto
  have m: "s\<lparr>mu := True, chans := ?h, mu := False\<rparr> = s\<lparr>chans := ?h\<rparr>"
    using assms(1) by (cases s) simp
  have b: "BroadcastStatus marshal order st s = Inr (s\<lparr>chans := ?h\<rparr>)"
    using assms(1,5) r m by (simp add: BroadcastStatus_def Let_def)
  have e: "sseClients s = {} \<Longrightarrow> s\<lparr>chans := ?h\<rparr> = s"
    using assms(2) by (cases s) simp
  show ?thesis
    using b e assms(2) by (auto simp add: sent_def)
qed

theorem BroadcastStatus_delivers_witness:
  "\<not> mu demo_registry \<and> set [1, 0] = sseClients demo_registry \<and> distinct [1, 0 :: nat]
   \<and> \<not> is_closed (chans demo_registry 0) \<and> \<not> is_closed (chans demo_registry 1)
   \<and> demo_marshal demo_status = Inr demo_json
   \<and> (\<exists>s'. BroadcastStatus demo_marshal [1, 0] demo_status demo_registry = Inr s'
          \<and> buf (chans s' 0) = [''stale''] \<and> buf (chans s' 1) = [demo_json])"
proof -
  have h: "\<not> mu demo_registry" "set [1, 0] = sseClients demo_registry" "distinct [1, 0 :: nat]"
    "\<forall>c \<in> sseClients demo_registry. \<not> is_closed (chans demo_registry c)"
    "demo_marshal demo_status = Inr demo_json"
    by (auto simp add: demo_registry_def NewHTTPController_def make_chan_def demo_marshal_def
          demo_status_def demo_json_def)
  from BroadcastStatus_delivers [of demo_registry "[1, 0]" demo_marshal demo_status demo_json] h
  obtain s' where
    "BroadcastStatus demo_marshal [1, 0] demo_status demo_registry = Inr s'"
    "\<forall>c. chans s' c =
        (if c \<in> sseClients demo_registry
              \<and> length (buf (chans demo_registry c)) < cap (chans demo_registry c)
         then (chans demo_registry c)\<lparr>buf := buf (chans demo_registry c) @ [demo_json]\<rparr>
         else chans demo_registry c)"
    by blast
  then have "BroadcastStatus demo_marshal [1, 0] demo_status demo_registry = Inr s'
      \<and> buf (chans s' 0) = [''stale''] \<and> buf (chans s' 1) = [demo_json]"
    by (simp add: demo_registry_def NewHTTPController_def make_chan_def)
  with h show ?thesis
    by (auto simp add: demo_registry_def NewHTTPController_def make_chan_def)
qed





text \<open>
  C8. On a connection that cannot flush, in every reachable state: the handler is never at
  the initial push nor at the select; nothing it has written is an event frame; up to the
  flusher test it has written neither status nor body; the flusher test answers with status
  500 and the text of \<^verbatim>\<open>http.Error\<close> and goes straight to the deferred cleanup; and from
  then on the response is that status and that text, nothing more.
\<close>

theorem sse_without_flusher:
  assumes "run pcl marshal acts (NewHTTPController p) = Inr s"
    and "procs s t = Some (SseHandler l)" and "\<not> flusher (sw l)"
  shows "pc l \<noteq> SseInit \<and> pc l \<noteq> SseSelect
    \<and> (\<forall>d. sse_frame d \<notin> set (written (sw l)))
    \<and> (before_push (pc l) \<longrightarrow> code (sw l) = None \<and> written (sw l) = [])
    \<and> (pc l = SseCheck \<longrightarrow>
          (\<exists>s' l'. step pcl marshal (Step t) s = Inr s' \<and> procs s' t = Some (SseHandler l')
             \<and> pc l' = DeferLock \<and> code (sw l') = Some 500
             \<and> written (sw l') = [''Streaming unsupported!'' @ ''\<newline>'']))
    \<and> (\<not> before_push (pc l) \<longrightarrow>
          code (sw l) = Some 500 \<and> written (sw l) = [''Streaming unsupported!'' @ ''\<newline>'']
          \<and> flushed (sw l) = 0)"
proof -
  have w: "inv_w marshal s" using assms(1) by (rule reach_inv_w)
  then have g: "good_w marshal (pc l) l" using assms(2) by (simp add: inv_w_def)
  note f = good_w_no_flusher [OF g assms(3)]
  have 1: "pc l \<noteq> SseInit \<and> pc l \<noteq> SseSelect" using f by simp
  have 2: "\<forall>d. sse_frame d \<notin> set (written (sw l))"
    using f sse_frame_not_refusal by (auto simp add: untouched_def refused_def split: if_splits)
  have 3: "before_push (pc l) \<longrightarrow> code (sw l) = None \<and> written (sw l) = []"
    using f by (auto simp add: untouched_def)
  have 4: "pc l = SseCheck \<longrightarrow>
          (\<exists>s' l'. step pcl marshal (Step t) s = Inr s' \<and> procs s' t = Some (SseHandler l')
             \<and> pc l' = DeferLock \<and> code (sw l') = Some 500
             \<and> written (sw l') = [''Streaming unsupported!'' @ ''\<newline>''])"
    using f assms(2,3)
    by (auto simp add: untouched_def sse_step_def StatusInternalServerError_def)
  have 5: "\<not> before_push (pc l) \<longrightarrow>
          code (sw l) = Some 500 \<and> written (sw l) = [''Streaming unsupported!'' @ ''\<newline>'']
          \<and> flushed (sw l) = 0"
    using f by (auto simp add: refused_def StatusInternalServerError_def)
  show ?thesis using 1 2 3 4 5 by blast
qed

theorem sse_without_flusher_witness:
  "\<exists>s l. run (demo_controller None) demo_marshal demo_refuse (NewHTTPController 0) = Inr s
     \<and> procs s 1 = Some (SseHandler l) \<and> \<not> flusher (sw l) \<and> pc l = DeferLock
     \<and> code (sw l) = Some 500 \<and> written (sw l) = [''Streaming unsupported!'' @ ''\<newline>'']"
proof -
  from demo_refuse_run obtain s l where
    r: "run (demo_controller None) demo_marshal demo_refuse (NewHTTPController 0) = Inr s"
    and l: "procs s 1 = Some (SseHandler l)" and f: "\<not> flusher (sw l)"
    and p: "pc l = DeferLock"
    by blast
  from sse_without_flusher [OF r l f] p
  have "code (sw l) = Some 500 \<and> written (sw l) = [''Streaming unsupported!'' @ ''\<newline>'']"
    by auto
  with r l f p show ?thesis by blast
qed

text \<open>
  C10. The events handler never looks at the request method. A schedule in which every
  request to the events endpoint is sent with GET runs exactly as the same schedule with the
  methods the requests really had: it stops with the same fault, or reaches the same state
  up to the method recorded in each request. In every reachable state, whatever the method,
  the status of an events response is not 405, a handler at line 95 registers its channel
  with its next step, and the channel of a handler between lines 96 and 100 is in the
  registry.
\<close>

theorem sse_ignores_method:
  "run pcl marshal (map (with_method MethodGet) acts) (NewHTTPController p)
     = r_method MethodGet (run pcl marshal acts (NewHTTPController p))
   \<and> (\<forall>s t l. run pcl marshal acts (NewHTTPController p) = Inr s \<longrightarrow>
         procs s t = Some (SseHandler l) \<longrightarrow>
           code (sw l) \<noteq> Some StatusMethodNotAllowed
           \<and> (pc l = SseInsert \<longrightarrow>
                (\<exists>s'. step pcl marshal (Step t) s = Inr s' \<and> clientChan l \<in> sseClients s'))
           \<and> (registered_at (pc l) \<longrightarrow> clientChan l \<in> sseClients s))"
proof (intro conjI allI impI)
  show "run pcl marshal (map (with_method MethodGet) acts) (NewHTTPController p)
     = r_method MethodGet (run pcl marshal acts (NewHTTPController p))"
    using run_method [of pcl marshal MethodGet acts "NewHTTPController p"] by simp
next
  fix s t l
  assume r: "run pcl marshal acts (NewHTTPController p) = Inr s"
    and l: "procs s t = Some (SseHandler l)"
  have "good_w marshal (pc l) l" using reach_inv_w [OF r] l by (simp add: inv_w_def)
  then show "code (sw l) \<noteq> Some StatusMethodNotAllowed" by (rule good_w_code)
  {
    assume "pc l = SseInsert"
    then show "\<exists>s'. step pcl marshal (Step t) s = Inr s' \<and> clientChan l \<in> sseClients s'"
      using l by (simp add: sse_step_def)
  }
  {
    assume a: "registered_at (pc l)"
    then have "pc l \<noteq> SseEntry" by auto
    then have "(clientChan l \<in> sseClients s) = registered_at (pc l)"
      using reach_consistent [OF r] l unfolding consistent_defs
      by (elim conjE allE [of _ t] allE [of _ "SseHandler l"] allE [of _ "clientChan l"]) simp
    with a show "clientChan l \<in> sseClients s" by simp
  }
qed

theorem sse_ignores_method_witness:
  "\<exists>s l. run (demo_controller None) demo_marshal demo_connect (NewHTTPController 0) = Inr s
     \<and> run (demo_controller None) demo_marshal (map (with_method MethodGet) demo_connect)
          (NewHTTPController 0) = Inr (s_method MethodGet s)
     \<and> procs s 1 = Some (SseHandler l) \<and> Method (sr l) = ''POST'' \<and> pc l = SseSelect
     \<and> code (sw l) = Some 200 \<and> clientChan l \<in> sseClients s"
proof -
  from demo_connect_run obtain s l where
    r: "run (demo_controller None) demo_marshal demo_connect (NewHTTPController 0) = Inr s"
    and l: "procs s 1 = Some (SseHandler l)" and p: "pc l = SseSelect"
    and m: "Method (sr l) = ''POST''" and c: "code (sw l) = Some 200"
    by blast
  from sse_ignores_method [of "demo_controller None" demo_marshal demo_connect 0] r l p
  have "run (demo_controller None) demo_marshal (map (with_method MethodGet) demo_connect)
          (NewHTTPController 0) = Inr (s_method MethodGet s)"
    and "clientChan l \<in> sseClients s"
    by auto
  with r l p m c show ?thesis by blast
qed

text \<open>
  C5 as the code has it. For a POST whose body decodes to \<^verbatim>\<open>set_play_mode\<close> with exactly
  one argument naming one of the five modes, the handler calls \<^verbatim>\<open>SetPlayMode\<close> with the
  mode of that name. If that call returns no error, the handler then calls
  \<^verbatim>\<open>Rerender\<close> and answers 200 with \<^verbatim>\<open>{"status": "ok"}\<close>. If it returns an error, the
  handler answers 500 with the error text in the payload and does not call
  \<^verbatim>\<open>Rerender\<close>.
\<close>

theorem set_play_mode_valid:
  assumes "Method rq = MethodPost" and "decode (bytes (Body rq)) = Inr cmd"
    and "Command cmd = ''set_play_mode''" and "Args cmd = [a]"
    and "(a, m) \<in> {(''ordered'', PmOrdered), (''list_loop'', PmListLoop),
                    (''single_loop'', PmSingleLoop), (''list_random'', PmListRandom),
                    (''inf_random'', PmInfRandom)}"
  shows "(SetPlayMode pcl m p = (None, p') \<longrightarrow>
            code (resp (commandHandler pcl decode (new_conn fl rq p))) = Some 200
            \<and> written (resp (commandHandler pcl decode (new_conn fl rq p))) = [''{\"status\": \"ok\"}'']
            \<and> calls (commandHandler pcl decode (new_conn fl rq p)) = [CSetPlayMode m, CRerender]
            \<and> player (commandHandler pcl decode (new_conn fl rq p)) = Rerender pcl p')
       \<and> (SetPlayMode pcl m p = (Some err, p') \<longrightarrow>
            code (resp (commandHandler pcl decode (new_conn fl rq p))) = Some 500
            \<and> written (resp (commandHandler pcl decode (new_conn fl rq p)))
                = [''{\"status\": \"error\", \"message\": \"'' @ err @ ''\"}'']
            \<and> calls (commandHandler pcl decode (new_conn fl rq p)) = [CSetPlayMode m]
            \<and> player (commandHandler pcl decode (new_conn fl rq p)) = p')"
  using assms(1-4) mode_of_arg_names [OF assms(5)]
  by (simp add: handler_core_defs Let_def)

theorem set_play_mode_valid_witness:
  "Method demo_mode_request = MethodPost
   \<and> demo_decode (bytes (Body demo_mode_request))
       = Inr \<lparr>Command = ''set_play_mode'', Args = [''ordered'']\<rparr>
   \<and> SetPlayMode (demo_controller None) PmOrdered 0 = (None, 0)
   \<and> SetPlayMode (demo_controller (Some ''player busy'')) PmOrdered 0 = (Some ''player busy'', 0)
   \<and> calls (commandHandler (demo_controller None) demo_decode (new_conn True demo_mode_request 0))
       = [CSetPlayMode PmOrdered, CRerender]
   \<and> code (resp (commandHandler (demo_controller None) demo_decode
         (new_conn True demo_mode_request 0))) = Some 200
   \<and> code (resp (commandHandler (demo_controller (Some ''player busy'')) demo_decode
         (new_conn True demo_mode_request 0))) = Some 500"
proof -
  have h: "Method demo_mode_request = MethodPost"
    "demo_decode (bytes (Body demo_mode_request))
       = Inr \<lparr>Command = ''set_play_mode'', Args = [''ordered'']\<rparr>"
    "Command \<lparr>Command = ''set_play_mode'', Args = [''ordered'']\<rparr> = ''set_play_mode''"
    "Args \<lparr>Command = ''set_play_mode'', Args = [''ordered'']\<rparr> = [''ordered'']"
    "(''ordered'', PmOrdered) \<in> {(''ordered'', PmOrdered), (''list_loop'', PmListLoop),
                    (''single_loop'', PmSingleLoop), (''list_random'', PmListRandom),
                    (''inf_random'', PmInfRandom)}"
    by (simp_all add: demo_mode_request_def demo_decode_def new_request_def MethodPost_def)
  have ok: "SetPlayMode (demo_controller None) PmOrdered 0 = (None, 0)"
    and bad: "SetPlayMode (demo_controller (Some ''player busy'')) PmOrdered 0
              = (Some ''player busy'', 0)"
    by (simp_all add: demo_controller_def)
  note a = set_play_mode_valid [of demo_mode_request demo_decode
      "\<lparr>Command = ''set_play_mode'', Args = [''ordered'']\<rparr>" "''ordered''" PmOrdered
      "demo_controller None" 0 0 True "''none''", OF h]
  note b = set_play_mode_valid [of demo_mode_request demo_decode
      "\<lparr>Command = ''set_play_mode'', Args = [''ordered'']\<rparr>" "''ordered''" PmOrdered
      "demo_controller (Some ''player busy'')" 0 0 True "''player busy''", OF h]
  from a ok b bad h(1,2) show ?thesis by simp
qed

text \<open>
  C5 as the spec states it fails: with a player whose \<^verbatim>\<open>SetPlayMode\<close> returns an error,
  a well-formed \<^verbatim>\<open>set_play_mode\<close> request for \<^verbatim>\<open>ordered\<close> is answered with 500, not
  200, and \<^verbatim>\<open>Rerender\<close> is not called.
\<close>

theorem set_play_mode_error_counterexample:
  "code (resp demo_failed_mode) = Some 500
   \<and> code (resp demo_failed_mode) \<noteq> Some 200
   \<and> written (resp demo_failed_mode) = [''{\"status\": \"error\", \"message\": \"player busy\"}'']
   \<and> calls demo_failed_mode = [CSetPlayMode PmOrdered]
   \<and> CRerender \<notin> set (calls demo_failed_mode)"
  by (simp add: demo_failed_mode_def demo_mode_request_def demo_decode_def demo_controller_def
        handler_defs)

text \<open>
  C6. For a POST whose body decodes to \<^verbatim>\<open>set_play_mode\<close> with a number of arguments other
  than one, or with one argument that is none of the five mode names, the handler answers
  400 with an error payload (\<^verbatim>\<open>invalid args\<close> or \<^verbatim>\<open>invalid play mode\<close>) and makes no
  call on the capability interface.
\<close>

theorem set_play_mode_invalid:
  assumes "Method rq = MethodPost" and "decode (bytes (Body rq)) = Inr cmd"
    and "Command cmd = ''set_play_mode''"
    and "length (Args cmd) \<noteq> 1 \<or>
         (\<exists>a. Args cmd = [a]
            \<and> a \<notin> {''ordered'', ''list_loop'', ''single_loop'', ''list_random'', ''inf_random''})"
  shows "code (resp (commandHandler pcl decode (new_conn fl rq p))) = Some 400
     \<and> (written (resp (commandHandler pcl decode (new_conn fl rq p)))
           = [''{\"status\": \"error\", \"message\": \"invalid args\"}'']
        \<or> written (resp (commandHandler pcl decode (new_conn fl rq p)))
           = [''{\"status\": \"error\", \"message\": \"invalid play mode\"}''])
     \<and> calls (commandHandler pcl decode (new_conn fl rq p)) = []
     \<and> player (commandHandler pcl decode (new_conn fl rq p)) = p"
  using assms
  by (auto simp add: handler_defs Let_def)

theorem set_play_mode_invalid_witness:
  "Method (new_request ''POST'' ''{\"command\":\"set_play_mode\"}'') = MethodPost
   \<and> demo_decode ''{\"command\":\"set_play_mode\"}'' = Inr \<lparr>Command = ''set_play_mode'', Args = []\<rparr>
   \<and> demo_decode ''{\"command\":\"set_play_mode\",\"args\":[\"shuffle\"]}''
       = Inr \<lparr>Command = ''set_play_mode'', Args = [''shuffle'']\<rparr>
   \<and> code (resp (commandHandler (demo_controller None) demo_decode
        (new_conn True (new_request ''POST'' ''{\"command\":\"set_play_mode\"}'') 0))) = Some 400
   \<and> calls (commandHandler (demo_controller None) demo_decode
        (new_conn True (new_request ''POST'' ''{\"command\":\"set_play_mode\"}'') 0)) = []
   \<and> code (resp (commandHandler (demo_controller None) demo_decode
        (new_conn True
           (new_request ''POST'' ''{\"command\":\"set_play_mode\",\"args\":[\"shuffle\"]}'') 0)))
       = Some 400
   \<and> calls (commandHandler (demo_controller None) demo_decode
        (new_conn True
           (new_request ''POST'' ''{\"command\":\"set_play_mode\",\"args\":[\"shuffle\"]}'') 0)) = []"
  using
    set_play_mode_invalid [of "new_request ''POST'' ''{\"command\":\"set_play_mode\"}''"
      demo_decode "\<lparr>Command = ''set_play_mode'', Args = []\<rparr>" "demo_controller None" True 0]
    set_play_mode_invalid [of
      "new_request ''POST'' ''{\"command\":\"set_play_mode\",\"args\":[\"shuffle\"]}''"
      demo_decode "\<lparr>Command = ''set_play_mode'', Args = [''shuffle'']\<rparr>" "demo_controller None"
      True 0]
  by (simp add: demo_decode_def new_request_def MethodPost_def)

text \<open>
  C7. For a POST whose body decodes to \<^verbatim>\<open>activate_intelligent_mode\<close>: if
  \<^verbatim>\<open>ActivateIntelligentMode\<close> returns an error, the handler answers 500 and the body is the
  error template with the text of that error spliced in unchanged; if it returns no error,
  the handler answers 200 with \<^verbatim>\<open>{"status": "ok"}\<close>.
\<close>

theorem activate_intelligent_mode_result:
  assumes "Method rq = MethodPost" and "decode (bytes (Body rq)) = Inr cmd"
    and "Command cmd = ''activate_intelligent_mode''"
  shows "(ActivateIntelligentMode pcl p = (Some err, p') \<longrightarrow>
            code (resp (commandHandler pcl decode (new_conn fl rq p))) = Some 500
            \<and> written (resp (commandHandler pcl decode (new_conn fl rq p)))
                = [''{\"status\": \"error\", \"message\": \"'' @ err @ ''\"}''])
       \<and> (ActivateIntelligentMode pcl p = (None, p') \<longrightarrow>
            code (resp (commandHandler pcl decode (new_conn fl rq p))) = Some 200
            \<and> written (resp (commandHandler pcl decode (new_conn fl rq p)))
                = [''{\"status\": \"ok\"}''])"
  using assms
  by (auto simp add: handler_defs Let_def)

theorem activate_intelligent_mode_result_witness:
  "Method demo_activate_request = MethodPost
   \<and> demo_decode (bytes (Body demo_activate_request))
       = Inr \<lparr>Command = ''activate_intelligent_mode'', Args = []\<rparr>
   \<and> ActivateIntelligentMode (demo_controller (Some ''no song playing'')) 0
       = (Some ''no song playing'', 0)
   \<and> ActivateIntelligentMode (demo_controller None) 0 = (None, 0)
   \<and> code (resp (commandHandler (demo_controller (Some ''no song playing'')) demo_decode
        (new_conn True demo_activate_request 0))) = Some 500
   \<and> written (resp (commandHandler (demo_controller (Some ''no song playing'')) demo_decode
        (new_conn True demo_activate_request 0)))
       = [''{\"status\": \"error\", \"message\": \"no song playing\"}'']
   \<and> code (resp (commandHandler (demo_controller None) demo_decode
        (new_conn True demo_activate_request 0))) = Some 200"
proof -
  have h: "Method demo_activate_request = MethodPost"
    "demo_decode (bytes (Body demo_activate_request))
       = Inr \<lparr>Command = ''activate_intelligent_mode'', Args = []\<rparr>"
    "Command \<lparr>Command = ''activate_intelligent_mode'', Args = []\<rparr> = ''activate_intelligent_mode''"
    by (simp_all add: demo_activate_request_def demo_decode_def new_request_def MethodPost_def)
  have bad: "ActivateIntelligentMode (demo_controller (Some ''no song playing'')) 0
       = (Some ''no song playing'', 0)"
    and ok: "ActivateIntelligentMode (demo_controller None) 0 = (None, 0)"
    by (simp_all add: demo_controller_def)
  note a = activate_intelligent_mode_result [of demo_activate_request demo_decode
      "\<lparr>Command = ''activate_intelligent_mode'', Args = []\<rparr>"
      "demo_controller (Some ''no song playing'')" 0 "''no song playing''" 0 True, OF h]
  note b = activate_intelligent_mode_result [of demo_activate_request demo_decode
      "\<lparr>Command = ''activate_intelligent_mode'', Args = []\<rparr>"
      "demo_controller None" 0 "''none''" 0 True, OF h]
  from a bad b ok h(1,2) show ?thesis by simp
qed

text \<open>
  C9. A request to the command endpoint with a method other than POST, and a request to
  the status endpoint with a method other than GET, is answered with status 405 and no
  body, and the handler makes no call on the capability interface.
\<close>

theorem wrong_method_405:
  "(Method rq \<noteq> MethodPost \<longrightarrow>
      code (resp (commandHandler pcl decode (new_conn fl rq p))) = Some 405
      \<and> written (resp (commandHandler pcl decode (new_conn fl rq p))) = []
      \<and> calls (commandHandler pcl decode (new_conn fl rq p)) = []
      \<and> player (commandHandler pcl decode (new_conn fl rq p)) = p)
   \<and> (Method rq \<noteq> MethodGet \<longrightarrow>
      code (resp (statusHandler pcl marshal (new_conn fl rq p))) = Some 405
      \<and> written (resp (statusHandler pcl marshal (new_conn fl rq p))) = []
      \<and> calls (statusHandler pcl marshal (new_conn fl rq p)) = []
      \<and> player (statusHandler pcl marshal (new_conn fl rq p)) = p)"
  by (simp add: commandHandler_def statusHandler_def new_conn_def new_writer_def WriteHeader_def
        StatusMethodNotAllowed_def)

theorem wrong_method_405_witness:
  "Method (new_request ''GET'' []) \<noteq> MethodPost \<and> Method (new_request ''POST'' []) \<noteq> MethodGet
   \<and> code (resp (commandHandler (demo_controller None) demo_decode
         (new_conn True (new_request ''GET'' []) 0))) = Some 405
   \<and> written (resp (commandHandler (demo_controller None) demo_decode
         (new_conn True (new_request ''GET'' []) 0))) = []
   \<and> code (resp (statusHandler (demo_controller None) demo_marshal
         (new_conn True (new_request ''POST'' []) 0))) = Some 405
   \<and> calls (statusHandler (demo_controller None) demo_marshal
         (new_conn True (new_request ''POST'' []) 0)) = []"
  using
    wrong_method_405 [of "new_request ''GET'' []" "demo_controller None" demo_decode True 0
      demo_marshal]
    wrong_method_405 [of "new_request ''POST'' []" "demo_controller None" demo_decode True 0
      demo_marshal]
  by (simp add: new_request_def MethodPost_def MethodGet_def)

end
